theory Spec2Isabelle
  imports Complex_Main
begin

section \<open>Values, type tags and per-path statistics (infer.js)\<close>

text \<open>
  Payloads are JSON-like JavaScript values. Numbers are modelled by rationals (NaN and the
  infinities do not occur in JSON); strings are Isabelle strings; an object is the list of
  its own enumerable properties in the order \<open>Object.keys\<close> enumerates them.
\<close>

datatype jsvalue =
    JNull
  | JUndefined
  | JBool bool
  | JNum rat
  | JStr string
  | JArr "jsvalue list"
  | JObj "(string \<times> jsvalue) list"

datatype error = TypeError

text \<open>The JavaScript operator \<open>typeof\<close>: null and arrays are objects.\<close>

fun typeof :: "jsvalue \<Rightarrow> string" where
  "typeof JNull = ''object''"
| "typeof JUndefined = ''undefined''"
| "typeof (JBool b) = ''boolean''"
| "typeof (JNum r) = ''number''"
| "typeof (JStr s) = ''string''"
| "typeof (JArr xs) = ''object''"
| "typeof (JObj kvs) = ''object''"

fun Array_isArray :: "jsvalue \<Rightarrow> bool" where
  "Array_isArray (JArr xs) = True"
| "Array_isArray v = False"

fun Number_isInteger :: "jsvalue \<Rightarrow> bool" where
  "Number_isInteger (JNum r) = (of_int \<lfloor>r\<rfloor> = r)"
| "Number_isInteger v = False"

definition typeName :: "jsvalue \<Rightarrow> string" where
  "typeName v =
     (if v = JNull \<or> v = JUndefined then ''null''
      else if Array_isArray v then ''array''
      else if typeof v = ''object'' then ''object''
      else if Number_isInteger v then ''integer''
      else typeof v)"

subsection \<open>Plain objects used as dictionaries\<close>

text \<open>
  \<open>stats\<close>, \<open>output\<close> and the stored field maps are plain objects. An object is modelled
  by the association list of its own properties in enumeration order: array-index keys
  (canonical decimal strings below \<open>2^32 - 1\<close>) first, in ascending numeric order, then
  every other key in the order of creation.
\<close>

definition is_digit :: "char \<Rightarrow> bool" where
  "is_digit c = (c \<in> set ''0123456789'')"

definition digit_value :: "char \<Rightarrow> int" where
  "digit_value c = of_char c - 48"

definition array_index :: "string \<Rightarrow> int option" where
  "array_index s =
     (if s \<noteq> [] \<and> list_all is_digit s \<and> (s = ''0'' \<or> hd s \<noteq> CHR ''0'')
         \<and> foldl (\<lambda>n c. 10 * n + digit_value c) 0 s < 4294967295
      then Some (foldl (\<lambda>n c. 10 * n + digit_value c) 0 s) else None)"

text \<open>Creating a new own property \<open>k\<close> (the key is not yet an own property).\<close>

fun own_insert :: "string \<Rightarrow> 'v \<Rightarrow> (string \<times> 'v) list \<Rightarrow> (string \<times> 'v) list" where
  "own_insert k v [] = [(k, v)]"
| "own_insert k v ((k', v') # rest) =
     (case array_index k of
        None \<Rightarrow> (k', v') # own_insert k v rest
      | Some n \<Rightarrow>
          (case array_index k' of
             None \<Rightarrow> (k, v) # (k', v') # rest
           | Some m \<Rightarrow> if m < n then (k', v') # own_insert k v rest
                       else (k, v) # (k', v') # rest))"

text \<open>Overwriting the value of an existing own property keeps its position.\<close>

fun own_update :: "string \<Rightarrow> 'v \<Rightarrow> (string \<times> 'v) list \<Rightarrow> (string \<times> 'v) list" where
  "own_update k v [] = []"
| "own_update k v ((k', v') # rest) =
     (if k' = k then (k, v) # rest else (k', v') # own_update k v rest)"

text \<open>
  The property names every plain object inherits from \<open>Object.prototype\<close>. Reading such a
  key from an object that has no own property of that name yields the inherited member, not
  \<open>undefined\<close>.
\<close>

definition Object_prototype_names :: "string list" where
  "Object_prototype_names =
     [''constructor'', ''__defineGetter__'', ''__defineSetter__'', ''hasOwnProperty'',
      ''__lookupGetter__'', ''__lookupSetter__'', ''isPrototypeOf'', ''propertyIsEnumerable'',
      ''toString'', ''valueOf'', ''__proto__'', ''toLocaleString'']"

subsection \<open>The statistics map\<close>

text \<open>
  One entry per path: \<open>{ count, types }\<close>, where \<open>types\<close> is a \<open>Set\<close>, which iterates in
  insertion order and is modelled by a duplicate-free list.
\<close>

record fieldstat =
  count :: nat
  types :: "string list"

type_synonym stats = "(string \<times> fieldstat) list"

definition Set_add :: "string \<Rightarrow> string list \<Rightarrow> string list" where
  "Set_add t ts = (if t \<in> set ts then ts else ts @ [t])"

text \<open>
  The three statements
  \<^verbatim>\<open>stats[key] = stats[key] || { count:0, types:new Set() }; stats[key].count++; stats[key].types.add(tag)\<close>.
  When \<open>key\<close> is not an own property but names a member of \<open>Object.prototype\<close>, the read
  yields that member (truthy), which has no \<open>types\<close>, and \<open>.types.add\<close> throws a TypeError.
\<close>

definition touch :: "string \<Rightarrow> string \<Rightarrow> stats \<Rightarrow> error + stats" where
  "touch key tag stats =
     (case map_of stats key of
        Some e \<Rightarrow>
          Inr (own_update key (e\<lparr>count := count e + 1, types := Set_add tag (types e)\<rparr>) stats)
      | None \<Rightarrow>
          if key \<in> set Object_prototype_names then Inl TypeError
          else Inr (own_insert key \<lparr>count = 0 + 1, types = Set_add tag []\<rparr> stats))"

subsection \<open>collect\<close>

text \<open>
  \<open>collect_fields\<close> is the loop over \<open>Object.keys(obj)\<close>, \<open>collect_items\<close> the loop over
  \<open>v.slice(0,3)\<close>. The statistics map is threaded through; an exception aborts the walk.
\<close>

lemma size_list_take_le: "size_list f (take n xs) \<le> size_list f xs"
  by (induction xs arbitrary: n) (auto simp: take_Cons split: nat.splits)

function collect :: "jsvalue \<Rightarrow> stats \<Rightarrow> string \<Rightarrow> error + stats"
  and collect_fields :: "(string \<times> jsvalue) list \<Rightarrow> stats \<Rightarrow> string \<Rightarrow> error + stats"
  and collect_items :: "jsvalue list \<Rightarrow> stats \<Rightarrow> string \<Rightarrow> error + stats"
where
  "collect obj stats prefix =
     (if obj = JNull \<or> obj = JUndefined then Inr stats
      else if typeof obj \<noteq> ''object'' \<or> Array_isArray obj
      then touch (if prefix \<noteq> [] then prefix else ''value'') (typeName obj) stats
      else (case obj of JObj kvs \<Rightarrow> collect_fields kvs stats prefix | _ \<Rightarrow> Inr stats))"
| "collect_fields [] stats prefix = Inr stats"
| "collect_fields ((k, v) # kvs) stats prefix =
     (let path = (if prefix \<noteq> [] then prefix @ ''.'' @ k else k) in
      case touch path (typeName v) stats of
        Inl e \<Rightarrow> Inl e
      | Inr s1 \<Rightarrow>
          (case (if typeof v = ''object'' then collect v s1 path else Inr s1) of
             Inl e \<Rightarrow> Inl e
           | Inr s2 \<Rightarrow>
               (case (case v of JArr xs \<Rightarrow> collect_items (take 3 xs) s2 (path @ ''[]'')
                               | _ \<Rightarrow> Inr s2) of
                  Inl e \<Rightarrow> Inl e
                | Inr s3 \<Rightarrow> collect_fields kvs s3 prefix)))"
| "collect_items [] stats prefix = Inr stats"
| "collect_items (x # xs) stats prefix =
     (case collect x stats prefix of
        Inl e \<Rightarrow> Inl e
      | Inr s \<Rightarrow> collect_items xs s prefix)"
  by pat_completeness auto

termination
proof (relation "measure (\<lambda>a. case a of
          Inl (obj, _, _) \<Rightarrow> size obj
        | Inr (Inl (kvs, _, _)) \<Rightarrow> size_list (size_prod (\<lambda>_. 0) size) kvs
        | Inr (Inr (xs, _, _)) \<Rightarrow> size_list size xs)", goal_cases)
  case 1
  then show ?case by simp
next
  case (2 obj stats prefix kvs)
  then show ?case by simp
next
  case (3 k v kvs stats prefix path)
  then show ?case by simp
next
  case (4 k v kvs stats prefix path s1 s2 xs)
  have "size_list size (take 3 xs) \<le> size_list size xs"
    by (rule size_list_take_le)
  with 4 show ?case by simp
next
  case (5 k v kvs stats prefix path s1 s2 s3)
  then show ?case by simp
next
  case (6 x xs stats prefix)
  then show ?case by simp
next
  case (7 x xs stats prefix s)
  then show ?case by simp
qed


subsection \<open>buildSchema\<close>

record field =
  present :: nat
  optional :: bool
  ftypes :: "string list"

type_synonym fieldmap = "(string \<times> field) list"

text \<open>
  The assignment \<open>output[k] = v\<close> on a plain object: it overwrites or creates the own
  property \<open>k\<close>, except that assigning an object to the key \<open>__proto__\<close> replaces the
  prototype and creates no own property.
\<close>

definition obj_assign :: "string \<Rightarrow> 'v \<Rightarrow> (string \<times> 'v) list \<Rightarrow> (string \<times> 'v) list" where
  "obj_assign k v obj =
     (if k = ''__proto__'' then obj
      else if k \<in> fst ` set obj then own_update k v obj
      else own_insert k v obj)"

definition buildSchema :: "stats \<Rightarrow> nat \<Rightarrow> fieldmap" where
  "buildSchema stats total_samples =
     foldl (\<lambda>output (k, s).
              obj_assign k \<lparr>present = count s, optional = (count s < total_samples), ftypes = types s\<rparr> output)
           [] stats"

subsection \<open>JSON.stringify on field maps, deepDifferent\<close>

definition digit_char :: "nat \<Rightarrow> char" where
  "digit_char n = ''0123456789abcdef'' ! n"

fun string_of_nat :: "nat \<Rightarrow> string" where
  "string_of_nat n =
     (if n < 10 then [digit_char n] else string_of_nat (n div 10) @ [digit_char (n mod 10)])"

declare string_of_nat.simps [simp del]

text \<open>
  \<open>QuoteJSONString\<close>: the quotation mark and the backslash are escaped, the control
  characters become \<open>\b \t \n \f \r\<close> or \<open>\u00xx\<close>, every other character stands for itself.
\<close>

definition json_escape_char :: "char \<Rightarrow> string" where
  "json_escape_char c =
     (if c = CHR 0x08 then [CHR 0x5C, CHR ''b'']
      else if c = CHR 0x09 then [CHR 0x5C, CHR ''t'']
      else if c = CHR 0x0A then [CHR 0x5C, CHR ''n'']
      else if c = CHR 0x0C then [CHR 0x5C, CHR ''f'']
      else if c = CHR 0x0D then [CHR 0x5C, CHR ''r'']
      else if c = CHR 0x22 then [CHR 0x5C, CHR 0x22]
      else if c = CHR 0x5C then [CHR 0x5C, CHR 0x5C]
      else if (of_char c :: nat) < 32
      then [CHR 0x5C, CHR ''u'', CHR ''0'', CHR ''0'',
            digit_char (of_char c div 16), digit_char (of_char c mod 16)]
      else [c])"

text \<open>The characters with an escape of their own.\<close>

definition json_specials :: "char set" where
  "json_specials = {CHR 0x08, CHR 0x09, CHR 0x0A, CHR 0x0C, CHR 0x0D, CHR 0x22, CHR 0x5C}"

definition json_quote :: "string \<Rightarrow> string" where
  "json_quote s = [CHR 0x22] @ concat (map json_escape_char s) @ [CHR 0x22]"

fun join_comma :: "string list \<Rightarrow> string" where
  "join_comma [] = []"
| "join_comma [x] = x"
| "join_comma (x # y # ys) = x @ '','' @ join_comma (y # ys)"

definition JSON_stringify_field :: "field \<Rightarrow> string" where
  "JSON_stringify_field f =
     ''{'' @ json_quote ''present'' @ '':'' @ string_of_nat (present f) @ '',''
       @ json_quote ''optional'' @ '':'' @ (if optional f then ''true'' else ''false'') @ '',''
       @ json_quote ''types'' @ '':['' @ join_comma (map json_quote (ftypes f)) @ '']}''"

text \<open>One property of the serialised object: the quoted key, a colon and the value.\<close>

definition json_entry :: "string \<times> field \<Rightarrow> string" where
  "json_entry = (\<lambda>(k, f). json_quote k @ '':'' @ JSON_stringify_field f)"

definition JSON_stringify :: "fieldmap \<Rightarrow> string" where
  "JSON_stringify fm =
     ''{'' @ join_comma (map json_entry fm) @ ''}''"

definition deepDifferent :: "fieldmap \<Rightarrow> fieldmap \<Rightarrow> bool" where
  "deepDifferent a b = (JSON_stringify a \<noteq> JSON_stringify b)"

subsection \<open>The collections and inferAndMaybeCreateVersion\<close>

record rawrecord =
  payload :: jsvalue
  ingestedAt :: int

record schemaversion =
  version :: nat
  vfields :: fieldmap
  totalSamples :: nat
  vnotes :: string

record store =
  rawRecords :: "rawrecord list"
  schemaVersions :: "schemaversion list"

text \<open>
  The queries of the persistence layer, run one after the other on the collections:
  \<open>RawRecord.find().sort({ ingestedAt:-1 }).limit(sampleSize)\<close> (a limit of 0 means no limit),
  \<open>SchemaVersion.findOne().sort({ version:-1 })\<close> and \<open>SchemaVersion.create\<close>, which
  appends the document. Rejections of the database itself are outside this model.
\<close>

definition limit :: "nat \<Rightarrow> 'a list \<Rightarrow> 'a list" where
  "limit n xs = (if n = 0 then xs else take n xs)"

definition find_samples :: "nat \<Rightarrow> store \<Rightarrow> rawrecord list" where
  "find_samples sampleSize st =
     limit sampleSize (sort_key (\<lambda>r. - ingestedAt r) (rawRecords st))"

definition findOne_latest :: "store \<Rightarrow> schemaversion option" where
  "findOne_latest st =
     (case sort_key (\<lambda>v. - int (version v)) (schemaVersions st) of
        [] \<Rightarrow> None
      | v # _ \<Rightarrow> Some v)"

definition create :: "schemaversion \<Rightarrow> store \<Rightarrow> schemaversion \<times> store" where
  "create doc st = (doc, st\<lparr>schemaVersions := schemaVersions st @ [doc]\<rparr>)"

text \<open>The loop \<open>for (const s of samples) collect(s.payload, stats)\<close>.\<close>

fun collect_samples :: "rawrecord list \<Rightarrow> stats \<Rightarrow> error + stats" where
  "collect_samples [] stats = Inr stats"
| "collect_samples (s # samples) stats =
     (case collect (payload s) stats [] of
        Inl e \<Rightarrow> Inl e
      | Inr stats' \<Rightarrow> collect_samples samples stats')"

text \<open>
  The result is the rejection (\<open>Inl\<close>) or the resolved value (\<open>Inr\<close>, where \<open>None\<close> is
  \<open>null\<close>), together with the collections afterwards.
\<close>

definition inferAndMaybeCreateVersion ::
  "nat \<Rightarrow> store \<Rightarrow> (error + schemaversion option) \<times> store" where
  "inferAndMaybeCreateVersion sampleSize st =
     (let samples = find_samples sampleSize st in
      if length samples = 0 then (Inr None, st)
      else
        (case collect_samples samples [] of
           Inl e \<Rightarrow> (Inl e, st)
         | Inr stats \<Rightarrow>
             (let newSchema = buildSchema stats (length samples);
                  latest = findOne_latest st
              in if latest = None \<or> deepDifferent (vfields (the latest)) newSchema
                 then (let newVer = (case latest of Some l \<Rightarrow> version l + 1 | None \<Rightarrow> 1);
                           (doc, st') = create \<lparr>version = newVer, vfields = newSchema,
                                                totalSamples = length samples,
                                                vnotes = ''auto''\<rparr> st
                       in (Inr (Some doc), st'))
                 else (Inr None, st))))"

section \<open>The schema diff (routes.js)\<close>

record schemadiff =
  added :: "string list"
  removed :: "string list"
  changed :: "string list"

definition Object_keys :: "(string \<times> 'v) list \<Rightarrow> string list" where
  "Object_keys obj = map fst obj"

text \<open>\<open>JSON.stringify(fields[k] || {})\<close>: a missing entry serialises as the empty object.\<close>

definition stringify_entry :: "fieldmap \<Rightarrow> string \<Rightarrow> string" where
  "stringify_entry fm k =
     (case map_of fm k of Some f \<Rightarrow> JSON_stringify_field f | None \<Rightarrow> ''{}'')"

definition diffSchemas :: "fieldmap \<Rightarrow> fieldmap \<Rightarrow> schemadiff" where
  "diffSchemas fieldsA fieldsB =
     (let keysA = Object_keys fieldsA;
          keysB = Object_keys fieldsB;
          added = filter (\<lambda>k. \<not> (k \<in> set keysA)) keysB;
          removed = filter (\<lambda>k. \<not> (k \<in> set keysB)) keysA;
          possibleChanged = filter (\<lambda>k. k \<in> set keysB) keysA;
          changed = filter (\<lambda>k. stringify_entry fieldsA k \<noteq> stringify_entry fieldsB k)
                           possibleChanged
      in \<lparr>added = added, removed = removed, changed = changed\<rparr>)"


section \<open>Observations on a statistics map\<close>

definition stat_count :: "stats \<Rightarrow> string \<Rightarrow> nat" where
  "stat_count stats p = (case map_of stats p of Some e \<Rightarrow> count e | None \<Rightarrow> 0)"

definition stat_types :: "stats \<Rightarrow> string \<Rightarrow> string list" where
  "stat_types stats p = (case map_of stats p of Some e \<Rightarrow> types e | None \<Rightarrow> [])"

section \<open>Reachable field paths\<close>

text \<open>
  The field paths of a document as the specification describes the walk: every key of an
  object gives the path \<open>parent.k\<close> (or \<open>k\<close> at the root), the walk continues into an
  object under that path and into at most the first three elements of an array under the
  path suffixed with \<open>[]\<close>; an unnested scalar or array is recorded under the current
  path (\<open>value\<close> at the top level); null and undefined values are not recorded. A path is
  listed once for each value met at it.
\<close>

function reachable :: "jsvalue \<Rightarrow> string \<Rightarrow> string list"
  and reachable_fields :: "(string \<times> jsvalue) list \<Rightarrow> string \<Rightarrow> string list"
  and reachable_items :: "jsvalue list \<Rightarrow> string \<Rightarrow> string list"
where
  "reachable obj prefix =
     (case obj of
        JNull \<Rightarrow> []
      | JUndefined \<Rightarrow> []
      | JObj kvs \<Rightarrow> reachable_fields kvs prefix
      | _ \<Rightarrow> [if prefix \<noteq> [] then prefix else ''value''])"
| "reachable_fields [] prefix = []"
| "reachable_fields ((k, v) # kvs) prefix =
     (let path = (if prefix \<noteq> [] then prefix @ ''.'' @ k else k) in
      path #
      (case v of
         JObj fs \<Rightarrow> reachable v path
       | JArr xs \<Rightarrow> reachable_items (take 3 xs) (path @ ''[]'')
       | _ \<Rightarrow> [])
      @ reachable_fields kvs prefix)"
| "reachable_items [] prefix = []"
| "reachable_items (x # xs) prefix = reachable x prefix @ reachable_items xs prefix"
  by pat_completeness auto
termination
proof (relation "measure (\<lambda>a. case a of
          Inl (obj, _) \<Rightarrow> size obj
        | Inr (Inl (kvs, _)) \<Rightarrow> size_list (size_prod (\<lambda>_. 0) size) kvs
        | Inr (Inr (xs, _)) \<Rightarrow> size_list size xs)", goal_cases)
  case (3 k v kvs prefix path xs)
  have "size_list size (take 3 xs) \<le> size_list size xs"
    by (rule size_list_take_le)
  with 3 show ?case by simp
qed simp_all

text \<open>
  The paths touched when \<open>collect\<close> is entered again on an array-valued field (an array
  is an object for \<open>typeof\<close>): the field's own path, or \<open>value\<close> when that path is
  empty.
\<close>

function reentered :: "jsvalue \<Rightarrow> string \<Rightarrow> string list"
  and reentered_fields :: "(string \<times> jsvalue) list \<Rightarrow> string \<Rightarrow> string list"
  and reentered_items :: "jsvalue list \<Rightarrow> string \<Rightarrow> string list"
where
  "reentered obj prefix =
     (case obj of JObj kvs \<Rightarrow> reentered_fields kvs prefix | _ \<Rightarrow> [])"
| "reentered_fields [] prefix = []"
| "reentered_fields ((k, v) # kvs) prefix =
     (let path = (if prefix \<noteq> [] then prefix @ ''.'' @ k else k) in
      (case v of
         JObj fs \<Rightarrow> reentered v path
       | JArr xs \<Rightarrow> (if path \<noteq> [] then path else ''value'')
                    # reentered_items (take 3 xs) (path @ ''[]'')
       | _ \<Rightarrow> [])
      @ reentered_fields kvs prefix)"
| "reentered_items [] prefix = []"
| "reentered_items (x # xs) prefix = reentered x prefix @ reentered_items xs prefix"
  by pat_completeness auto
termination
proof (relation "measure (\<lambda>a. case a of
          Inl (obj, _) \<Rightarrow> size obj
        | Inr (Inl (kvs, _)) \<Rightarrow> size_list (size_prod (\<lambda>_. 0) size) kvs
        | Inr (Inr (xs, _)) \<Rightarrow> size_list size xs)", goal_cases)
  case (3 k v kvs prefix path xs)
  have "size_list size (take 3 xs) \<le> size_list size xs"
    by (rule size_list_take_le)
  with 3 show ?case by simp
qed simp_all


section \<open>Invariant of the statistics map and accounting of a walk\<close>

text \<open>
  A statistics map built by \<open>collect\<close> has pairwise distinct keys, none of them a member
  name of \<open>Object.prototype\<close>, and duplicate-free type sets.
\<close>

definition wf_stats :: "stats \<Rightarrow> bool" where
  "wf_stats s =
     (distinct (map fst s)
      \<and> (\<forall>k \<in> set (map fst s). k \<notin> set Object_prototype_names)
      \<and> (\<forall>e \<in> set (map snd s). distinct (types e)))"

text \<open>
  \<open>accounted s s' ps qs\<close>: the map \<open>s'\<close> arises from \<open>s\<close> by counting once every path of
  \<open>ps\<close> and of \<open>qs\<close>, creating their entries, and changing nothing else.
\<close>

definition accounted :: "stats \<Rightarrow> stats \<Rightarrow> string list \<Rightarrow> string list \<Rightarrow> bool" where
  "accounted s s' ps qs =
     ((\<forall>p. stat_count s' p = stat_count s p + count_list ps p + count_list qs p)
      \<and> set (map fst s') = set (map fst s) \<union> set ps \<union> set qs
      \<and> (\<forall>p. p \<notin> set ps \<union> set qs \<longrightarrow> map_of s' p = map_of s p)
      \<and> (wf_stats s \<longrightarrow> wf_stats s'))"

text \<open>
  No path touched by the walk of a document names a member of \<open>Object.prototype\<close>; then
  no read of the statistics map yields an inherited member and the walk throws nothing.
\<close>

definition safe_paths :: "jsvalue \<Rightarrow> bool" where
  "safe_paths D =
     list_all (\<lambda>q. q \<notin> set Object_prototype_names) (reachable D [] @ reentered D [])"

section \<open>Own properties: lookup after insertion and update\<close>

lemma map_of_own_update:
  "map_of (own_update k v al) = (if map_of al k = None then map_of al else (map_of al)(k \<mapsto> v))"
  by (induction al) (auto simp: fun_eq_iff)

lemma map_of_own_insert:
  "map_of al k = None \<Longrightarrow> map_of (own_insert k v al) = (map_of al)(k \<mapsto> v)"
  by (induction al) (auto simp: fun_eq_iff split: option.splits if_splits)

lemma keys_own_update: "map fst (own_update k v al) = map fst al"
  by (induction al) auto

lemma keys_own_insert: "set (map fst (own_insert k v al)) = insert k (set (map fst al))"
proof (induction al)
  case Nil
  then show ?case by simp
next
  case (Cons a al)
  obtain k' v' where a: "a = (k', v')" by (cases a)
  have sw: "insert k' (insert k S) = insert k (insert k' S)" for S :: "string set"
    by blast
  show ?case
    using Cons.IH by (cases "array_index k"; cases "array_index k'") (simp_all add: a sw)
qed

lemma distinct_own_insert:
  "distinct (map fst al) \<Longrightarrow> k \<notin> set (map fst al) \<Longrightarrow> distinct (map fst (own_insert k v al))"
proof (induction al)
  case Nil
  then show ?case by simp
next
  case (Cons a al)
  have "fst a \<notin> set (map fst (own_insert k v al))"
    using Cons.prems unfolding keys_own_insert by auto
  with Cons show ?case
    by (cases a) (auto split: option.splits)
qed

lemma touch_Inr:
  assumes "touch key tag stats = Inr s'"
  shows "map_of s' = (map_of stats)(key \<mapsto>
           \<lparr>count = stat_count stats key + 1, types = Set_add tag (stat_types stats key)\<rparr>)"
proof (cases "map_of stats key")
  case None
  with assms show ?thesis
    by (auto simp: touch_def stat_count_def stat_types_def map_of_own_insert split: if_splits)
next
  case (Some e)
  with assms show ?thesis
    by (auto simp: touch_def stat_count_def stat_types_def map_of_own_update)
qed

lemma touch_value: "\<exists>s'. touch ''value'' tag stats = Inr s'"
  by (auto simp: touch_def Object_prototype_names_def split: option.splits)

section \<open>One walk of collect, accounted path by path\<close>

lemma accounted_refl: "accounted s s [] []"
  by (simp add: accounted_def)

lemma accounted_trans:
  "accounted s s1 ps qs \<Longrightarrow> accounted s1 s2 ps' qs' \<Longrightarrow> accounted s s2 (ps @ ps') (qs @ qs')"
  unfolding accounted_def by (intro conjI) auto

lemma keys_touch:
  assumes "touch key tag stats = Inr s'"
  shows "set (map fst s') = insert key (set (map fst stats))"
proof (cases "map_of stats key")
  case None
  with assms show ?thesis
    by (auto simp: touch_def keys_own_insert simp del: set_map split: if_splits)
next
  case (Some e)
  then have "key \<in> set (map fst stats)"
    by (metis map_of_eq_None_iff option.distinct(1) set_map)
  with Some assms show ?thesis
    by (auto simp: touch_def keys_own_update simp del: set_map)
qed

lemma set_own_update: "set (own_update k v al) \<subseteq> insert (k, v) (set al)"
  by (induction al) (auto split: if_splits)

lemma set_own_insert: "set (own_insert k v al) = insert (k, v) (set al)"
  by (induction al) (auto split: option.splits if_splits)

lemma Set_add_distinct: "distinct ts \<Longrightarrow> distinct (Set_add t ts)"
  by (simp add: Set_add_def)

lemma wf_stats_touch:
  assumes "touch key tag stats = Inr s'" and "wf_stats stats"
  shows "wf_stats s'"
proof (cases "map_of stats key")
  case None
  then have nk: "key \<notin> set (map fst stats)"
    by (simp add: map_of_eq_None_iff)
  from None assms(1) have s': "s' = own_insert key \<lparr>count = 0 + 1, types = Set_add tag []\<rparr> stats"
    and np: "key \<notin> set Object_prototype_names"
    by (auto simp: touch_def split: if_splits)
  have "distinct (map fst s')"
    unfolding s' using assms(2) nk by (intro distinct_own_insert) (simp_all add: wf_stats_def)
  moreover have "\<forall>k \<in> set (map fst s'). k \<notin> set Object_prototype_names"
    unfolding s' keys_own_insert using assms(2) np by (auto simp: wf_stats_def)
  moreover have "\<forall>e \<in> set (map snd s'). distinct (types e)"
    unfolding s' using assms(2) by (auto simp: wf_stats_def set_own_insert Set_add_def)
  ultimately show ?thesis
    by (simp add: wf_stats_def)
next
  case (Some e)
  with assms(1) have s': "s' = own_update key (e\<lparr>count := count e + 1, types := Set_add tag (types e)\<rparr>) stats"
    by (simp add: touch_def)
  from Some have "(key, e) \<in> set stats"
    by (rule map_of_SomeD)
  then have de: "distinct (types e)"
    using assms(2) by (force simp: wf_stats_def)
  have "\<forall>x \<in> set (map snd s'). distinct (types x)"
  proof
    fix x assume "x \<in> set (map snd s')"
    then obtain k where "(k, x) \<in> set s'" by auto
    then have "(k, x) = (key, e\<lparr>count := count e + 1, types := Set_add tag (types e)\<rparr>) \<or> (k, x) \<in> set stats"
      unfolding s' using set_own_update by fastforce
    then show "distinct (types x)"
      using de assms(2) by (force simp: wf_stats_def Set_add_distinct)
  qed
  then show ?thesis
    using assms(2) by (simp add: wf_stats_def s' keys_own_update)
qed

lemma stat_count_touch:
  assumes "touch key tag stats = Inr s'"
  shows "stat_count s' p = stat_count stats p + (if p = key then 1 else 0)"
  using touch_Inr [OF assms] by (simp add: stat_count_def)

lemma accounted_touch_reach: "touch key tag stats = Inr s' \<Longrightarrow> accounted stats s' [key] []"
  unfolding accounted_def
  by (intro conjI) (auto simp: stat_count_touch keys_touch wf_stats_touch touch_Inr simp del: set_map)

lemma accounted_touch_reenter: "touch key tag stats = Inr s' \<Longrightarrow> accounted stats s' [] [key]"
  unfolding accounted_def
  by (intro conjI) (auto simp: stat_count_touch keys_touch wf_stats_touch touch_Inr simp del: set_map)



lemma collect_accounted:
  "collect obj stats prefix = Inr s' \<Longrightarrow>
     accounted stats s' (reachable obj prefix) (reentered obj prefix)"
  "collect_fields kvs stats prefix = Inr s' \<Longrightarrow>
     accounted stats s' (reachable_fields kvs prefix) (reentered_fields kvs prefix)"
  "collect_items xs stats prefix = Inr s' \<Longrightarrow>
     accounted stats s' (reachable_items xs prefix) (reentered_items xs prefix)"
proof (induction obj stats prefix and kvs stats prefix and xs stats prefix
       arbitrary: s' and s' and s' rule: collect_collect_fields_collect_items.induct)
  case (1 obj stats prefix)
  show ?case
  proof (cases obj)
    case (JObj fs)
    with "1.prems" have "collect_fields fs stats prefix = Inr s'"
      by simp
    from "1.IH" [OF _ _ JObj this] show ?thesis
      by (simp add: JObj)
  qed (use "1.prems" in \<open>simp_all add: accounted_refl accounted_touch_reach\<close>)
next
  case (2 stats prefix)
  then show ?case by (simp add: accounted_refl)
next
  case (3 k v kvs stats prefix)
  define path where "path = (if prefix \<noteq> [] then prefix @ ''.'' @ k else k)"
  have "collect_fields ((k, v) # kvs) stats prefix =
      (case touch path (typeName v) stats of
        Inl e \<Rightarrow> Inl e
      | Inr s1 \<Rightarrow>
          (case (if typeof v = ''object'' then collect v s1 path else Inr s1) of
             Inl e \<Rightarrow> Inl e
           | Inr s2 \<Rightarrow>
               (case (case v of JArr xs \<Rightarrow> collect_items (take 3 xs) s2 (path @ ''[]'')
                               | _ \<Rightarrow> Inr s2) of
                  Inl e \<Rightarrow> Inl e
                | Inr s3 \<Rightarrow> collect_fields kvs s3 prefix)))"
    unfolding path_def by (simp only: collect_fields.simps Let_def)
  with "3.prems" obtain s1 s2 s3 where
    t1: "touch path (typeName v) stats = Inr s1" and
    t2: "(if typeof v = ''object'' then collect v s1 path else Inr s1) = Inr s2" and
    t3: "(case v of JArr xs \<Rightarrow> collect_items (take 3 xs) s2 (path @ ''[]'') | _ \<Rightarrow> Inr s2)
           = Inr s3" and
    t4: "collect_fields kvs s3 prefix = Inr s'"
    by (auto split: sum.splits simp del: collect.simps collect_fields.simps)
  have a1: "accounted stats s1 [path] []"
    using t1 by (rule accounted_touch_reach)
  have a4: "accounted s3 s' (reachable_fields kvs prefix) (reentered_fields kvs prefix)"
    using "3.IH"(3) [OF path_def t1 t2 t3 t4] .
  have a23: "accounted s1 s3
      (case v of JObj fs \<Rightarrow> reachable v path
               | JArr xs \<Rightarrow> reachable_items (take 3 xs) (path @ ''[]'')
               | _ \<Rightarrow> [])
      (case v of JObj fs \<Rightarrow> reentered v path
               | JArr xs \<Rightarrow> (if path \<noteq> [] then path else ''value'')
                            # reentered_items (take 3 xs) (path @ ''[]'')
               | _ \<Rightarrow> [])"
  proof (cases v)
    case (JArr xs)
    from t2 JArr have "touch (if path \<noteq> [] then path else ''value'') ''array'' s1 = Inr s2"
      by (simp add: typeName_def)
    then have b: "accounted s1 s2 [] [if path \<noteq> [] then path else ''value'']"
      by (rule accounted_touch_reenter)
    from t3 JArr have c: "collect_items (take 3 xs) s2 (path @ ''[]'') = Inr s3"
      by simp
    have "accounted s2 s3 (reachable_items (take 3 xs) (path @ ''[]''))
            (reentered_items (take 3 xs) (path @ ''[]''))"
      using "3.IH"(2) [OF path_def t1 t2 JArr c] .
    from accounted_trans [OF b this] show ?thesis
      by (simp add: JArr)
  next
    case (JObj fs)
    with t2 have c: "collect v s1 path = Inr s2"
      by simp
    have o: "typeof v = ''object''"
      by (simp add: JObj)
    from t3 JObj have "s3 = s2" by simp
    with "3.IH"(1) [OF path_def t1 o c] show ?thesis
      by (simp add: JObj del: reachable.simps reentered.simps)
  qed (use t2 t3 in \<open>simp_all add: accounted_refl\<close>)
  have r1: "reachable_fields ((k, v) # kvs) prefix =
      [path] @ (case v of JObj fs \<Rightarrow> reachable v path
               | JArr xs \<Rightarrow> reachable_items (take 3 xs) (path @ ''[]'')
               | _ \<Rightarrow> []) @ reachable_fields kvs prefix"
    unfolding path_def by (simp only: reachable_fields.simps Let_def append.simps)
  have r2: "reentered_fields ((k, v) # kvs) prefix =
      [] @ (case v of JObj fs \<Rightarrow> reentered v path
               | JArr xs \<Rightarrow> (if path \<noteq> [] then path else ''value'')
                            # reentered_items (take 3 xs) (path @ ''[]'')
               | _ \<Rightarrow> []) @ reentered_fields kvs prefix"
    unfolding path_def by (simp only: reentered_fields.simps Let_def append.simps)
  from accounted_trans [OF a1 accounted_trans [OF a23 a4]] show ?case
    by (simp only: r1 r2)
next
  case (4 stats prefix)
  then show ?case by (simp add: accounted_refl)
next
  case (5 x xs stats prefix)
  from "5.prems" obtain s1 where
    c1: "collect x stats prefix = Inr s1" and c2: "collect_items xs s1 prefix = Inr s'"
    by (auto split: sum.splits simp del: collect.simps)
  from accounted_trans [OF "5.IH"(1) [OF c1] "5.IH"(2) [OF c1 c2]] show ?case
    by (simp del: reachable.simps reentered.simps)
qed

lemma count_list_0: "p \<notin> set xs \<Longrightarrow> count_list xs p = 0"
  by (induction xs) auto

lemma reachable_extends:
  "prefix \<noteq> [] \<Longrightarrow> p \<in> set (reachable obj prefix) \<Longrightarrow> \<exists>r. p = prefix @ r"
  "prefix \<noteq> [] \<Longrightarrow> p \<in> set (reachable_fields kvs prefix) \<Longrightarrow> \<exists>r. p = prefix @ r"
  "prefix \<noteq> [] \<Longrightarrow> p \<in> set (reachable_items xs prefix) \<Longrightarrow> \<exists>r. p = prefix @ r"
proof (induction obj prefix and kvs prefix and xs prefix
       rule: reachable_reachable_fields_reachable_items.induct)
  case (1 obj prefix)
  then show ?case by (cases obj) auto
next
  case (2 prefix)
  then show ?case by simp
next
  case (3 k v kvs prefix)
  define path where "path = (if prefix \<noteq> [] then prefix @ ''.'' @ k else k)"
  have pe: "path \<noteq> []" "path = prefix @ ''.'' @ k" "path @ ''[]'' \<noteq> []"
    using "3.prems"(1) by (simp_all add: path_def)
  have r: "reachable_fields ((k, v) # kvs) prefix =
      [path] @ (case v of JObj fs \<Rightarrow> reachable v path
               | JArr xs \<Rightarrow> reachable_items (take 3 xs) (path @ ''[]'')
               | _ \<Rightarrow> []) @ reachable_fields kvs prefix"
    unfolding path_def by (simp only: reachable_fields.simps Let_def append.simps)
  from "3.prems"(2) consider
      "p = path"
    | fs where "v = JObj fs" "p \<in> set (reachable v path)"
    | xs where "v = JArr xs" "p \<in> set (reachable_items (take 3 xs) (path @ ''[]''))"
    | "p \<in> set (reachable_fields kvs prefix)"
    unfolding r by (cases v) (auto simp del: reachable.simps)
  then show ?case
  proof cases
    case 1
    then show ?thesis using pe(2) by simp
  next
    case 2
    from "3.IH"(2) [OF path_def 2(1) pe(1) 2(2)] show ?thesis
      using pe(2) by auto
  next
    case 3
    from "3.IH"(1) [OF path_def 3(1) pe(3) 3(2)] show ?thesis
      using pe(2) by auto
  next
    case 4
    from "3.IH"(3) [OF path_def "3.prems"(1) 4] show ?thesis .
  qed
next
  case (4 prefix)
  then show ?case by simp
next
  case (5 x xs prefix)
  then show ?case by (auto simp del: reachable.simps)
qed

lemma reentered_extends:
  "prefix \<noteq> [] \<Longrightarrow> p \<in> set (reentered obj prefix) \<Longrightarrow> \<exists>r. p = prefix @ r"
  "prefix \<noteq> [] \<Longrightarrow> p \<in> set (reentered_fields kvs prefix) \<Longrightarrow> \<exists>r. p = prefix @ r"
  "prefix \<noteq> [] \<Longrightarrow> p \<in> set (reentered_items xs prefix) \<Longrightarrow> \<exists>r. p = prefix @ r"
proof (induction obj prefix and kvs prefix and xs prefix
       rule: reentered_reentered_fields_reentered_items.induct)
  case (1 obj prefix)
  then show ?case by (cases obj) auto
next
  case (2 prefix)
  then show ?case by simp
next
  case (3 k v kvs prefix)
  define path where "path = (if prefix \<noteq> [] then prefix @ ''.'' @ k else k)"
  have pe: "path \<noteq> []" "path = prefix @ ''.'' @ k" "path @ ''[]'' \<noteq> []"
    using "3.prems"(1) by (simp_all add: path_def)
  have r: "reentered_fields ((k, v) # kvs) prefix =
      (case v of JObj fs \<Rightarrow> reentered v path
               | JArr xs \<Rightarrow> (if path \<noteq> [] then path else ''value'')
                            # reentered_items (take 3 xs) (path @ ''[]'')
               | _ \<Rightarrow> []) @ reentered_fields kvs prefix"
    unfolding path_def by (simp only: reentered_fields.simps Let_def append.simps)
  from "3.prems"(2) consider
      xs where "v = JArr xs" "p = path"
    | fs where "v = JObj fs" "p \<in> set (reentered v path)"
    | xs where "v = JArr xs" "p \<in> set (reentered_items (take 3 xs) (path @ ''[]''))"
    | "p \<in> set (reentered_fields kvs prefix)"
    unfolding r using pe(1) by (cases v) (auto simp del: reentered.simps)
  then show ?case
  proof cases
    case 1
    then show ?thesis using pe(2) by simp
  next
    case 2
    from "3.IH"(2) [OF path_def 2(1) pe(1) 2(2)] show ?thesis
      using pe(2) by auto
  next
    case 3
    from "3.IH"(1) [OF path_def 3(1) pe(3) 3(2)] show ?thesis
      using pe(2) by auto
  next
    case 4
    from "3.IH"(3) [OF path_def "3.prems"(1) 4] show ?thesis .
  qed
next
  case (4 prefix)
  then show ?case by simp
next
  case (5 x xs prefix)
  then show ?case by (auto simp del: reentered.simps)
qed

lemma extends_take: "p = prefix @ r \<Longrightarrow> take (length prefix) p = prefix"
  by simp

lemma touch_ok: "key \<notin> set Object_prototype_names \<Longrightarrow> \<exists>s'. touch key tag stats = Inr s'"
  by (auto simp: touch_def split: option.splits)

text \<open>
  A key named like a member of \<open>Object.prototype\<close> makes the walk throw: the statistics
  map is a plain object, and \<open>stats["constructor"]\<close> is the inherited constructor.
\<close>

lemma collect_prototype_name_throws:
  "collect (JObj [(''constructor'', JNum 1)]) [] [] = Inl TypeError"
  by code_simp

lemma accounted_wf: "accounted s s' ps qs \<Longrightarrow> wf_stats s \<Longrightarrow> wf_stats s'"
  by (simp add: accounted_def)

lemma collect_succeeds:
  "wf_stats stats \<Longrightarrow>
   \<forall>q \<in> set (reachable obj prefix) \<union> set (reentered obj prefix). q \<notin> set Object_prototype_names \<Longrightarrow>
   \<exists>s'. collect obj stats prefix = Inr s'"
  "wf_stats stats \<Longrightarrow>
   \<forall>q \<in> set (reachable_fields kvs prefix) \<union> set (reentered_fields kvs prefix).
      q \<notin> set Object_prototype_names \<Longrightarrow>
   \<exists>s'. collect_fields kvs stats prefix = Inr s'"
  "wf_stats stats \<Longrightarrow>
   \<forall>q \<in> set (reachable_items xs prefix) \<union> set (reentered_items xs prefix).
      q \<notin> set Object_prototype_names \<Longrightarrow>
   \<exists>s'. collect_items xs stats prefix = Inr s'"
proof (induction obj stats prefix and kvs stats prefix and xs stats prefix
       rule: collect_collect_fields_collect_items.induct)
  case (1 obj stats prefix)
  show ?case
  proof (cases obj)
    case (JObj fs)
    from "1.IH" [OF _ _ JObj "1.prems"(1)] "1.prems"(2) show ?thesis
      by (simp add: JObj)
  qed (use "1.prems" in \<open>simp_all add: touch_ok typeName_def\<close>)
next
  case (2 stats prefix)
  then show ?case by simp
next
  case (3 k v kvs stats prefix)
  define path where "path = (if prefix \<noteq> [] then prefix @ ''.'' @ k else k)"
  have eq: "collect_fields ((k, v) # kvs) stats prefix =
      (case touch path (typeName v) stats of
        Inl e \<Rightarrow> Inl e
      | Inr s1 \<Rightarrow>
          (case (if typeof v = ''object'' then collect v s1 path else Inr s1) of
             Inl e \<Rightarrow> Inl e
           | Inr s2 \<Rightarrow>
               (case (case v of JArr xs \<Rightarrow> collect_items (take 3 xs) s2 (path @ ''[]'')
                               | _ \<Rightarrow> Inr s2) of
                  Inl e \<Rightarrow> Inl e
                | Inr s3 \<Rightarrow> collect_fields kvs s3 prefix)))"
    unfolding path_def by (simp only: collect_fields.simps Let_def)
  have r1: "reachable_fields ((k, v) # kvs) prefix =
      [path] @ (case v of JObj fs \<Rightarrow> reachable v path
               | JArr xs \<Rightarrow> reachable_items (take 3 xs) (path @ ''[]'')
               | _ \<Rightarrow> []) @ reachable_fields kvs prefix"
    unfolding path_def by (simp only: reachable_fields.simps Let_def append.simps)
  have r2: "reentered_fields ((k, v) # kvs) prefix =
      (case v of JObj fs \<Rightarrow> reentered v path
               | JArr xs \<Rightarrow> (if path \<noteq> [] then path else ''value'')
                            # reentered_items (take 3 xs) (path @ ''[]'')
               | _ \<Rightarrow> []) @ reentered_fields kvs prefix"
    unfolding path_def by (simp only: reentered_fields.simps Let_def append.simps)
  note ok = "3.prems"(2) [unfolded r1 r2]
  from ok have "path \<notin> set Object_prototype_names"
    by simp
  then obtain s1 where t1: "touch path (typeName v) stats = Inr s1"
    using touch_ok by blast
  have w1: "wf_stats s1"
    using t1 "3.prems"(1) by (rule wf_stats_touch)
  have "\<exists>s2 s3. (if typeof v = ''object'' then collect v s1 path else Inr s1) = Inr s2
          \<and> (case v of JArr xs \<Rightarrow> collect_items (take 3 xs) s2 (path @ ''[]'') | _ \<Rightarrow> Inr s2)
              = Inr s3
          \<and> wf_stats s3"
  proof (cases v)
    case (JArr xs)
    from ok JArr have "(if path \<noteq> [] then path else ''value'') \<notin> set Object_prototype_names"
      by simp
    then obtain s2 where t2: "touch (if path \<noteq> [] then path else ''value'') ''array'' s1 = Inr s2"
      using touch_ok by blast
    then have c2: "(if typeof v = ''object'' then collect v s1 path else Inr s1) = Inr s2"
      by (simp add: JArr typeName_def)
    have w2: "wf_stats s2"
      using t2 w1 by (rule wf_stats_touch)
    have "\<forall>q \<in> set (reachable_items (take 3 xs) (path @ ''[]''))
               \<union> set (reentered_items (take 3 xs) (path @ ''[]'')).
            q \<notin> set Object_prototype_names"
      using ok JArr by auto
    from "3.IH"(2) [OF path_def t1 c2 JArr w2 this]
    obtain s3 where c3: "collect_items (take 3 xs) s2 (path @ ''[]'') = Inr s3"
      by blast
    have "wf_stats s3"
      using collect_accounted(3) [OF c3] w2 by (rule accounted_wf)
    with c2 c3 show ?thesis
      by (simp add: JArr)
  next
    case (JObj fs)
    have o: "typeof v = ''object''"
      by (simp add: JObj)
    have "\<forall>q \<in> set (reachable v path) \<union> set (reentered v path).
            q \<notin> set Object_prototype_names"
      using ok JObj by (auto simp del: reachable.simps reentered.simps)
    from "3.IH"(1) [OF path_def t1 o w1 this]
    obtain s2 where c2: "collect v s1 path = Inr s2"
      by blast
    have "wf_stats s2"
      using collect_accounted(1) [OF c2] w1 by (rule accounted_wf)
    with c2 o show ?thesis
      by (simp add: JObj)
  qed (use w1 in simp_all)
  then obtain s2 s3 where
    c2: "(if typeof v = ''object'' then collect v s1 path else Inr s1) = Inr s2" and
    c3: "(case v of JArr xs \<Rightarrow> collect_items (take 3 xs) s2 (path @ ''[]'') | _ \<Rightarrow> Inr s2)
           = Inr s3" and
    w3: "wf_stats s3"
    by blast
  have "\<forall>q \<in> set (reachable_fields kvs prefix) \<union> set (reentered_fields kvs prefix).
          q \<notin> set Object_prototype_names"
    using ok by auto
  from "3.IH"(3) [OF path_def t1 c2 c3 w3 this]
  obtain s' where "collect_fields kvs s3 prefix = Inr s'"
    by blast
  with t1 c2 c3 show ?case
    unfolding eq by simp
next
  case (4 stats prefix)
  then show ?case by simp
next
  case (5 x xs stats prefix)
  from "5.prems"(2) have
    okx: "\<forall>q \<in> set (reachable x prefix) \<union> set (reentered x prefix).
            q \<notin> set Object_prototype_names" and
    okxs: "\<forall>q \<in> set (reachable_items xs prefix) \<union> set (reentered_items xs prefix).
            q \<notin> set Object_prototype_names"
    by (auto simp del: reachable.simps reentered.simps)
  from "5.IH"(1) [OF "5.prems"(1) okx] obtain s1 where c1: "collect x stats prefix = Inr s1"
    by blast
  have "wf_stats s1"
    using collect_accounted(1) [OF c1] "5.prems"(1) by (rule accounted_wf)
  from "5.IH"(2) [OF c1 this okxs] obtain s' where "collect_items xs s1 prefix = Inr s'"
    by blast
  with c1 show ?case
    by (simp del: collect.simps)
qed

lemma collect_samples_succeeds:
  "wf_stats s \<Longrightarrow> list_all (\<lambda>r. safe_paths (payload r)) samples \<Longrightarrow>
     \<exists>s'. collect_samples samples s = Inr s'"
proof (induction samples arbitrary: s)
  case Nil
  then show ?case by simp
next
  case (Cons r samples)
  from Cons.prems(2) have
    "\<forall>q \<in> set (reachable (payload r) []) \<union> set (reentered (payload r) []).
       q \<notin> set Object_prototype_names"
    by (auto simp: safe_paths_def list_all_iff simp del: reachable.simps reentered.simps)
  from collect_succeeds(1) [OF Cons.prems(1) this]
  obtain s1 where c: "collect (payload r) s [] = Inr s1"
    by blast
  have "wf_stats s1"
    using collect_accounted(1) [OF c] Cons.prems(1) by (rule accounted_wf)
  from Cons.IH [OF this] Cons.prems(2) obtain s' where "collect_samples samples s1 = Inr s'"
    by auto
  with c show ?case
    by (simp del: collect.simps)
qed

section \<open>Top-level values\<close>

text \<open>
  C10. A top-level array is recorded once under the synthetic path \<open>value\<close> with the tag
  \<open>array\<close>, whatever its elements are: the result does not depend on \<open>xs\<close>, so no element
  is visited. On a fresh statistics map the result is the single entry
  \<open>value: { count: 1, types: {array} }\<close>.
\<close>

theorem collect_top_level_array:
  "collect (JArr xs) stats [] = touch ''value'' ''array'' stats
   \<and> collect (JArr xs) [] [] = Inr [(''value'', \<lparr>count = 1, types = [''array'']\<rparr>)]"
  by (simp add: typeName_def touch_def Object_prototype_names_def Set_add_def)

text \<open>
  C5, as stated, fails for null and undefined: \<open>collect\<close> returns at its first line and
  records nothing, so no entry \<open>value\<close> with the tag \<open>null\<close> appears.
\<close>

theorem collect_top_level_null_counterexample:
  "collect JNull [] [] = Inr [] \<and> collect JUndefined [] [] = Inr []"
  by simp

text \<open>
  C5, amended. A top-level boolean, number or string is recorded under the synthetic path
  \<open>value\<close>: the walk succeeds, the count of \<open>value\<close> grows by one, the type tag of the
  value is added to its type set, and every other entry is unchanged. A top-level null or
  undefined leaves the statistics map as it is.
\<close>

theorem collect_top_level_scalar:
  "(typeof v \<notin> {''object'', ''undefined''} \<longrightarrow>
      (\<exists>s'. collect v stats [] = Inr s' \<and>
            map_of s' = (map_of stats)(''value'' \<mapsto>
              \<lparr>count = stat_count stats ''value'' + 1,
                types = Set_add (typeName v) (stat_types stats ''value'')\<rparr>)))
   \<and> collect JNull stats [] = Inr stats
   \<and> collect JUndefined stats [] = Inr stats"
proof -
  have "\<exists>s'. collect v stats [] = Inr s' \<and>
            map_of s' = (map_of stats)(''value'' \<mapsto>
              \<lparr>count = stat_count stats ''value'' + 1,
                types = Set_add (typeName v) (stat_types stats ''value'')\<rparr>)"
    if "typeof v \<notin> {''object'', ''undefined''}"
  proof -
    from that have c: "collect v stats [] = touch ''value'' (typeName v) stats"
      by (cases v) simp_all
    obtain s' where s': "touch ''value'' (typeName v) stats = Inr s'"
      using touch_value by blast
    show ?thesis
      using c s' touch_Inr [OF s'] by simp
  qed
  then show ?thesis by simp
qed

theorem collect_top_level_scalar_witness:
  "typeof (JStr ''hi'') \<notin> {''object'', ''undefined''}
   \<and> (\<exists>s'. collect (JStr ''hi'') [] [] = Inr s' \<and>
          map_of s' = (map_of [])(''value'' \<mapsto>
              \<lparr>count = stat_count [] ''value'' + 1,
                types = Set_add (typeName (JStr ''hi'')) (stat_types [] ''value'')\<rparr>))"
  using collect_top_level_scalar [of "JStr ''hi''" "[]"] by simp

section \<open>Entries and counts after one document\<close>

text \<open>
  C1, as stated, fails: in \<open>{"a": [1, 2]}\<close> both visited elements are counted under the
  shared path \<open>a[]\<close>, whose count is 2 (and the array-valued field \<open>a\<close> itself is counted
  twice, once by the loop over the keys and once more when \<open>collect\<close> is entered on the
  array).
\<close>

theorem collect_fresh_counterexample:
  "collect (JObj [(''a'', JArr [JNum 1, JNum 2])]) [] []
     = Inr [(''a'', \<lparr>count = 2, types = [''array'']\<rparr>),
            (''a[]'', \<lparr>count = 2, types = [''integer'']\<rparr>)]"
  by code_simp

text \<open>
  C1, amended. For every document whose paths avoid the member names of
  \<open>Object.prototype\<close>, \<open>collect\<close> on a fresh statistics map returns a map with exactly one
  entry per distinct path, and for every path \<open>p\<close> other than those on which \<open>collect\<close> is
  entered again for an array-valued field: \<open>p\<close> has an entry exactly when it is reachable
  within the sampling cap, and its count is the number of values met at \<open>p\<close> (so 1 for a
  path met once, and the number of visited elements for a shared \<open>[]\<close> path).
\<close>

theorem collect_fresh_entries:
  assumes "safe_paths D" and "p \<notin> set (reentered D [])"
  shows "\<exists>s. collect D [] [] = Inr s
           \<and> distinct (map fst s)
           \<and> (p \<in> set (map fst s)) = (p \<in> set (reachable D []))
           \<and> stat_count s p = count_list (reachable D []) p"
proof -
  have w: "wf_stats []"
    by (simp add: wf_stats_def)
  from assms(1) have
    "\<forall>q \<in> set (reachable D []) \<union> set (reentered D []). q \<notin> set Object_prototype_names"
    by (auto simp: safe_paths_def list_all_iff simp del: reachable.simps reentered.simps)
  from collect_succeeds(1) [OF w this] obtain s where c: "collect D [] [] = Inr s"
    by blast
  have a: "accounted [] s (reachable D []) (reentered D [])"
    using c by (rule collect_accounted(1))
  with w have "distinct (map fst s)"
    by (simp add: accounted_def wf_stats_def)
  moreover have "(p \<in> set (map fst s)) = (p \<in> set (reachable D []))"
    using a assms(2) by (auto simp: accounted_def simp del: set_map reachable.simps reentered.simps)
  moreover have "stat_count s p = count_list (reachable D []) p"
    using a assms(2)
    by (simp add: accounted_def count_list_0 stat_count_def del: reachable.simps reentered.simps)
  ultimately show ?thesis
    using c by blast
qed

theorem collect_fresh_entries_witness:
  "safe_paths (JObj [(''a'', JArr [JNum 1, JStr ''x'']), (''b'', JObj [(''c'', JBool True)])])
   \<and> ''b.c'' \<notin> set (reentered (JObj [(''a'', JArr [JNum 1, JStr ''x'']),
                                       (''b'', JObj [(''c'', JBool True)])]) [])
   \<and> (\<exists>s. collect (JObj [(''a'', JArr [JNum 1, JStr ''x'']),
                          (''b'', JObj [(''c'', JBool True)])]) [] [] = Inr s
          \<and> distinct (map fst s)
          \<and> (''b.c'' \<in> set (map fst s))
              = (''b.c'' \<in> set (reachable (JObj [(''a'', JArr [JNum 1, JStr ''x'']),
                                                 (''b'', JObj [(''c'', JBool True)])]) []))
          \<and> stat_count s ''b.c''
              = count_list (reachable (JObj [(''a'', JArr [JNum 1, JStr ''x'']),
                                             (''b'', JObj [(''c'', JBool True)])]) []) ''b.c'')
   \<and> count_list (reachable (JObj [(''a'', JArr [JNum 1, JStr ''x'']),
                                  (''b'', JObj [(''c'', JBool True)])]) []) ''b.c'' = 1"
proof -
  let ?D = "JObj [(''a'', JArr [JNum 1, JStr ''x'']), (''b'', JObj [(''c'', JBool True)])]"
  have h1: "safe_paths ?D"
    by code_simp
  have h2: "''b.c'' \<notin> set (reentered ?D [])"
    by code_simp
  have h3: "count_list (reachable ?D []) ''b.c'' = 1"
    by code_simp
  from collect_fresh_entries [OF h1 h2] h1 h2 h3 show ?thesis
    by (simp only: simp_thms)
qed

section \<open>Array-valued fields\<close>

text \<open>
  C8. For a field \<open>k\<close> whose value is an array \<open>xs\<close>: (1) the result of \<open>collect\<close> is the
  same as for the array cut to its first three elements, so no element beyond the third is
  profiled; (2) the elements visited are \<open>take 3 xs\<close>, each by \<open>collect\<close> under the field's
  path suffixed with \<open>[]\<close>; (3) such a visit changes only entries whose path starts with
  that suffixed path, so all visited elements contribute to the one shared path and the
  paths below it.
\<close>

theorem collect_array_field_cap:
  "collect_fields ((k, JArr xs) # rest) stats prefix
     = collect_fields ((k, JArr (take 3 xs)) # rest) stats prefix
   \<and> collect_fields ((k, JArr xs) # rest) stats prefix
     = (let path = (if prefix \<noteq> [] then prefix @ ''.'' @ k else k) in
        case touch path ''array'' stats of
          Inl e \<Rightarrow> Inl e
        | Inr s1 \<Rightarrow>
            (case touch (if path \<noteq> [] then path else ''value'') ''array'' s1 of
               Inl e \<Rightarrow> Inl e
             | Inr s2 \<Rightarrow>
                 (case collect_items (take 3 xs) s2 (path @ ''[]'') of
                    Inl e \<Rightarrow> Inl e
                  | Inr s3 \<Rightarrow> collect_fields rest s3 prefix)))
   \<and> (\<forall>items s s' q. collect_items items s (path @ ''[]'') = Inr s'
          \<and> take (length (path @ ''[]'')) q \<noteq> path @ ''[]''
        \<longrightarrow> map_of s' q = map_of s q)"
proof (intro conjI allI impI)
  show "collect_fields ((k, JArr xs) # rest) stats prefix
     = collect_fields ((k, JArr (take 3 xs)) # rest) stats prefix"
    by (simp add: typeName_def Let_def cong: sum.case_cong)
next
  show "collect_fields ((k, JArr xs) # rest) stats prefix
     = (let path = (if prefix \<noteq> [] then prefix @ ''.'' @ k else k) in
        case touch path ''array'' stats of
          Inl e \<Rightarrow> Inl e
        | Inr s1 \<Rightarrow>
            (case touch (if path \<noteq> [] then path else ''value'') ''array'' s1 of
               Inl e \<Rightarrow> Inl e
             | Inr s2 \<Rightarrow>
                 (case collect_items (take 3 xs) s2 (path @ ''[]'') of
                    Inl e \<Rightarrow> Inl e
                  | Inr s3 \<Rightarrow> collect_fields rest s3 prefix)))"
    by (simp add: typeName_def Let_def cong: sum.case_cong)
next
  fix items s s' q
  assume a: "collect_items items s (path @ ''[]'') = Inr s'
          \<and> take (length (path @ ''[]'')) q \<noteq> path @ ''[]''"
  have ne: "path @ ''[]'' \<noteq> []" by simp
  from a have acc: "accounted s s' (reachable_items items (path @ ''[]''))
                      (reentered_items items (path @ ''[]''))"
    by (intro collect_accounted(3)) simp
  have "q \<notin> set (reachable_items items (path @ ''[]''))"
    using reachable_extends(3) [OF ne] extends_take a by blast
  moreover have "q \<notin> set (reentered_items items (path @ ''[]''))"
    using reentered_extends(3) [OF ne] extends_take a by blast
  ultimately show "map_of s' q = map_of s q"
    using acc by (simp add: accounted_def)
qed


theorem collect_array_field_cap_witness:
  "collect_fields [(''items'', JArr [JObj [(''x'', JNum 1)], JObj [(''x'', JNum 2)],
                                     JObj [(''x'', JNum 3)], JObj [(''x'', JStr ''four'')]])] [] []
     = collect_fields [(''items'', JArr (take 3 [JObj [(''x'', JNum 1)], JObj [(''x'', JNum 2)],
                                     JObj [(''x'', JNum 3)], JObj [(''x'', JStr ''four'')]]))] [] []
   \<and> collect_fields [(''items'', JArr [JObj [(''x'', JNum 1)], JObj [(''x'', JNum 2)],
                                     JObj [(''x'', JNum 3)], JObj [(''x'', JStr ''four'')]])] [] []
     = Inr [(''items'', \<lparr>count = 2, types = [''array'']\<rparr>),
            (''items[].x'', \<lparr>count = 3, types = [''integer'']\<rparr>)]
   \<and> collect_items (take 3 [JObj [(''x'', JNum 1)], JObj [(''x'', JNum 2)],
                              JObj [(''x'', JNum 3)], JObj [(''x'', JStr ''four'')]])
         [(''items'', \<lparr>count = 2, types = [''array'']\<rparr>)] (''items'' @ ''[]'')
     = Inr [(''items'', \<lparr>count = 2, types = [''array'']\<rparr>),
            (''items[].x'', \<lparr>count = 3, types = [''integer'']\<rparr>)]
   \<and> take (length (''items'' @ ''[]'')) ''items'' \<noteq> ''items'' @ ''[]''
   \<and> map_of [(''items'', \<lparr>count = 2, types = [''array'']\<rparr>),
              (''items[].x'', \<lparr>count = 3, types = [''integer'']\<rparr>)] ''items''
     = map_of [(''items'', \<lparr>count = 2, types = [''array'']\<rparr>)] ''items''"
proof -
  let ?four = "[JObj [(''x'', JNum 1)], JObj [(''x'', JNum 2)],
                JObj [(''x'', JNum 3)], JObj [(''x'', JStr ''four'')]]"
  let ?s2 = "[(''items'', \<lparr>count = 2, types = [''array'']\<rparr>)]"
  let ?s3 = "[(''items'', \<lparr>count = 2, types = [''array'']\<rparr>),
              (''items[].x'', \<lparr>count = 3, types = [''integer'']\<rparr>)]"
  have c: "collect_items (take 3 ?four) ?s2 (''items'' @ ''[]'') = Inr ?s3"
    by code_simp
  have n: "take (length (''items'' @ ''[]'')) ''items'' \<noteq> ''items'' @ ''[]''"
    by simp
  have e: "collect_fields [(''items'', JArr ?four)] [] [] = Inr ?s3"
    by code_simp
  from collect_array_field_cap [of "''items''" ?four "[]" "[]" "[]" "''items''"]
  have 1: "collect_fields [(''items'', JArr ?four)] [] []
             = collect_fields [(''items'', JArr (take 3 ?four))] [] []"
    and 3: "\<forall>items s s' q. collect_items items s (''items'' @ ''[]'') = Inr s'
              \<and> take (length (''items'' @ ''[]'')) q \<noteq> ''items'' @ ''[]''
            \<longrightarrow> map_of s' q = map_of s q"
    by blast+
  from 3 c n have "map_of ?s3 ''items'' = map_of ?s2 ''items''"
    by blast
  with 1 c n e show ?thesis
    by (simp only: simp_thms)
qed

section \<open>buildSchema\<close>

lemma map_of_obj_assign:
  "map_of (obj_assign k v out) = (if k = ''__proto__'' then map_of out else (map_of out)(k \<mapsto> v))"
proof (cases "k \<in> fst ` set out")
  case True
  then have "map_of out k \<noteq> None"
    by (simp add: map_of_eq_None_iff)
  with True show ?thesis
    by (auto simp: obj_assign_def map_of_own_update)
next
  case False
  then have "map_of out k = None"
    by (simp add: map_of_eq_None_iff)
  with False show ?thesis
    by (simp add: obj_assign_def map_of_own_insert)
qed

lemma map_of_foldl_assign:
  assumes "distinct (map fst stats)"
  shows "map_of (foldl (\<lambda>output (k, s). obj_assign k (f s) output) acc stats) k =
           (case map_of stats k of
              None \<Rightarrow> map_of acc k
            | Some s \<Rightarrow> if k = ''__proto__'' then map_of acc k else Some (f s))"
  using assms
proof (induction stats arbitrary: acc)
  case Nil
  then show ?case by simp
next
  case (Cons a stats)
  obtain k' s' where a: "a = (k', s')" by (cases a)
  from Cons.prems a have d: "distinct (map fst stats)" and nk: "k' \<notin> fst ` set stats"
    by simp_all
  from nk have none: "map_of stats k' = None"
    by (simp add: map_of_eq_None_iff)
  show ?case
    using Cons.IH [OF d, of "obj_assign k' (f s') acc"] none
    by (auto simp: a map_of_obj_assign split: option.splits)
qed

lemma collect_samples_wf:
  "collect_samples samples s = Inr s' \<Longrightarrow> wf_stats s \<Longrightarrow> wf_stats s'"
proof (induction samples arbitrary: s)
  case Nil
  then show ?case by simp
next
  case (Cons r samples)
  from Cons.prems(1) obtain s1 where
    c: "collect (payload r) s [] = Inr s1" and cs: "collect_samples samples s1 = Inr s'"
    by (auto split: sum.splits simp del: collect.simps)
  from collect_accounted(1) [OF c] Cons.prems(2) have "wf_stats s1"
    by (simp add: accounted_def del: reachable.simps reentered.simps)
  with Cons.IH [OF cs] show ?case .
qed

text \<open>
  C7. For every statistics map (well-formed, as every map built by \<open>collect\<close> is) and every
  total, the output of \<open>buildSchema\<close> has an entry exactly for the paths of the map, with
  \<open>present\<close> the count, \<open>optional\<close> true exactly when the count is below the total, and
  \<open>types\<close> the observed type tags in insertion order. Sampling \<open>{"a": 1}\<close>, \<open>{"a": "x"}\<close>,
  \<open>{"a": 1, "b": true}\<close> gives \<open>a: {present: 3, optional: false, types: [integer, string]}\<close>
  and \<open>b: {present: 1, optional: true, types: [boolean]}\<close>.
\<close>

theorem buildSchema_fields:
  "(wf_stats stats \<longrightarrow>
      map_of (buildSchema stats n) k
        = map_option (\<lambda>s. \<lparr>present = count s, optional = (count s < n), ftypes = types s\<rparr>)
            (map_of stats k)
      \<and> (\<forall>f. map_of (buildSchema stats n) k = Some f \<longrightarrow> distinct (ftypes f)))
   \<and> (collect_samples samples [] = Inr stats \<longrightarrow> wf_stats stats)
   \<and> collect_samples
        [\<lparr>payload = JObj [(''a'', JNum 1)], ingestedAt = 3\<rparr>,
         \<lparr>payload = JObj [(''a'', JStr ''x'')], ingestedAt = 2\<rparr>,
         \<lparr>payload = JObj [(''a'', JNum 1), (''b'', JBool True)], ingestedAt = 1\<rparr>] []
       = Inr [(''a'', \<lparr>count = 3, types = [''integer'', ''string'']\<rparr>),
              (''b'', \<lparr>count = 1, types = [''boolean'']\<rparr>)]
   \<and> buildSchema [(''a'', \<lparr>count = 3, types = [''integer'', ''string'']\<rparr>),
                   (''b'', \<lparr>count = 1, types = [''boolean'']\<rparr>)] 3
       = [(''a'', \<lparr>present = 3, optional = False, ftypes = [''integer'', ''string'']\<rparr>),
          (''b'', \<lparr>present = 1, optional = True, ftypes = [''boolean'']\<rparr>)]"
proof -
  have a: "map_of (buildSchema stats n) k
        = map_option (\<lambda>s. \<lparr>present = count s, optional = (count s < n), ftypes = types s\<rparr>)
            (map_of stats k)
      \<and> (\<forall>f. map_of (buildSchema stats n) k = Some f \<longrightarrow> distinct (ftypes f))"
    if wf: "wf_stats stats"
  proof -
    from wf have d: "distinct (map fst stats)"
      by (simp add: wf_stats_def)
    have np: "map_of stats ''__proto__'' = None"
      using wf by (auto simp: wf_stats_def Object_prototype_names_def map_of_eq_None_iff)
    have e: "map_of (buildSchema stats n) k
        = map_option (\<lambda>s. \<lparr>present = count s, optional = (count s < n), ftypes = types s\<rparr>)
            (map_of stats k)"
      unfolding buildSchema_def map_of_foldl_assign [OF d]
      using np by (auto split: option.splits)
    have "distinct (ftypes f)" if "map_of (buildSchema stats n) k = Some f" for f
    proof -
      from that e obtain s where s: "map_of stats k = Some s" and f: "ftypes f = types s"
        by auto
      from s have "s \<in> set (map snd stats)"
        by (force dest: map_of_SomeD)
      with wf f show ?thesis
        by (auto simp: wf_stats_def)
    qed
    with e show ?thesis
      by blast
  qed
  have b: "wf_stats stats" if "collect_samples samples [] = Inr stats"
    using that by (rule collect_samples_wf) (simp add: wf_stats_def)
  have c: "collect_samples
        [\<lparr>payload = JObj [(''a'', JNum 1)], ingestedAt = 3\<rparr>,
         \<lparr>payload = JObj [(''a'', JStr ''x'')], ingestedAt = 2\<rparr>,
         \<lparr>payload = JObj [(''a'', JNum 1), (''b'', JBool True)], ingestedAt = 1\<rparr>] []
       = Inr [(''a'', \<lparr>count = 3, types = [''integer'', ''string'']\<rparr>),
              (''b'', \<lparr>count = 1, types = [''boolean'']\<rparr>)]"
    by code_simp
  have d: "buildSchema [(''a'', \<lparr>count = 3, types = [''integer'', ''string'']\<rparr>),
                   (''b'', \<lparr>count = 1, types = [''boolean'']\<rparr>)] 3
       = [(''a'', \<lparr>present = 3, optional = False, ftypes = [''integer'', ''string'']\<rparr>),
          (''b'', \<lparr>present = 1, optional = True, ftypes = [''boolean'']\<rparr>)]"
    by code_simp
  from a b c d show ?thesis
    by (intro conjI impI) blast+
qed

theorem buildSchema_fields_witness:
  "collect_samples
        [\<lparr>payload = JObj [(''a'', JNum 1)], ingestedAt = 3\<rparr>,
         \<lparr>payload = JObj [(''a'', JStr ''x'')], ingestedAt = 2\<rparr>,
         \<lparr>payload = JObj [(''a'', JNum 1), (''b'', JBool True)], ingestedAt = 1\<rparr>] []
       = Inr [(''a'', \<lparr>count = 3, types = [''integer'', ''string'']\<rparr>),
              (''b'', \<lparr>count = 1, types = [''boolean'']\<rparr>)]
   \<and> wf_stats [(''a'', \<lparr>count = 3, types = [''integer'', ''string'']\<rparr>),
              (''b'', \<lparr>count = 1, types = [''boolean'']\<rparr>)]
   \<and> map_of (buildSchema [(''a'', \<lparr>count = 3, types = [''integer'', ''string'']\<rparr>),
                           (''b'', \<lparr>count = 1, types = [''boolean'']\<rparr>)] 3) ''b''
       = map_option (\<lambda>s. \<lparr>present = count s, optional = (count s < 3), ftypes = types s\<rparr>)
           (map_of [(''a'', \<lparr>count = 3, types = [''integer'', ''string'']\<rparr>),
                    (''b'', \<lparr>count = 1, types = [''boolean'']\<rparr>)] ''b'')
   \<and> map_option (\<lambda>s. \<lparr>present = count s, optional = (count s < 3), ftypes = types s\<rparr>)
           (map_of [(''a'', \<lparr>count = 3, types = [''integer'', ''string'']\<rparr>),
                    (''b'', \<lparr>count = 1, types = [''boolean'']\<rparr>)] ''b'')
       = Some \<lparr>present = 1, optional = True, ftypes = [''boolean'']\<rparr>"
proof -
  let ?docs = "[\<lparr>payload = JObj [(''a'', JNum 1)], ingestedAt = 3\<rparr>,
         \<lparr>payload = JObj [(''a'', JStr ''x'')], ingestedAt = 2\<rparr>,
         \<lparr>payload = JObj [(''a'', JNum 1), (''b'', JBool True)], ingestedAt = 1\<rparr>]"
  let ?S = "[(''a'', \<lparr>count = 3, types = [''integer'', ''string'']\<rparr>),
             (''b'', \<lparr>count = 1, types = [''boolean'']\<rparr>)]"
  note t = buildSchema_fields [of ?S 3 "''b''" ?docs]
  from t have c: "collect_samples ?docs [] = Inr ?S"
    by blast
  with t have wf: "wf_stats ?S"
    by blast
  with t have m: "map_of (buildSchema ?S 3) ''b''
       = map_option (\<lambda>s. \<lparr>present = count s, optional = (count s < 3), ftypes = types s\<rparr>)
           (map_of ?S ''b'')"
    by blast
  have v: "map_option (\<lambda>s. \<lparr>present = count s, optional = (count s < 3), ftypes = types s\<rparr>)
           (map_of ?S ''b'') = Some \<lparr>present = 1, optional = True, ftypes = [''boolean'']\<rparr>"
    by simp
  from c wf m v show ?thesis
    by (simp only: simp_thms)
qed

section \<open>The serialisation is injective\<close>

lemma digit_char_inj:
  assumes "i < 16" and "j < 16" and "digit_char i = digit_char j"
  shows "i = j"
proof -
  have d: "distinct ''0123456789abcdef''"
    by simp
  have "length ''0123456789abcdef'' = 16"
    by simp
  with assms d show ?thesis
    unfolding digit_char_def by (metis nth_eq_iff_index_eq)
qed

lemma digit_char_is_digit: "n < 10 \<Longrightarrow> is_digit (digit_char n)"
  by (auto simp: digit_char_def is_digit_def less_Suc_eq eval_nat_numeral)

lemma escape_char_head:
  "\<exists>c0 rest. json_escape_char c = c0 # rest \<and> c0 \<noteq> CHR 0x22"
  by (simp add: json_escape_char_def)

lemma control_char_eq:
  fixes c c' :: char
  assumes "digit_char (of_char c div 16) = digit_char (of_char c' div 16)"
    and "digit_char (of_char c mod 16) = digit_char (of_char c' mod 16)"
    and "(of_char c :: nat) < 32" and "(of_char c' :: nat) < 32"
  shows "c = c'"
proof -
  have "(of_char c :: nat) div 16 = of_char c' div 16"
    using assms by (intro digit_char_inj) auto
  moreover have "(of_char c :: nat) mod 16 = of_char c' mod 16"
    using assms by (intro digit_char_inj) auto
  ultimately have "(of_char c :: nat) = of_char c'"
    by (metis div_mult_mod_eq)
  then show ?thesis
    by simp
qed


lemma escape_specials:
  "json_escape_char (CHR 0x08) = [CHR 0x5C, CHR ''b'']"
  "json_escape_char (CHR 0x09) = [CHR 0x5C, CHR ''t'']"
  "json_escape_char (CHR 0x0A) = [CHR 0x5C, CHR ''n'']"
  "json_escape_char (CHR 0x0C) = [CHR 0x5C, CHR ''f'']"
  "json_escape_char (CHR 0x0D) = [CHR 0x5C, CHR ''r'']"
  "json_escape_char (CHR 0x22) = [CHR 0x5C, CHR 0x22]"
  "json_escape_char (CHR 0x5C) = [CHR 0x5C, CHR 0x5C]"
  by (simp_all add: json_escape_char_def)

lemma escape_control:
  "c \<notin> json_specials \<Longrightarrow> (of_char c :: nat) < 32 \<Longrightarrow>
     json_escape_char c = [CHR 0x5C, CHR ''u'', CHR ''0'', CHR ''0'',
                           digit_char (of_char c div 16), digit_char (of_char c mod 16)]"
  by (simp add: json_escape_char_def json_specials_def)

lemma escape_plain:
  "c \<notin> json_specials \<Longrightarrow> \<not> (of_char c :: nat) < 32 \<Longrightarrow> json_escape_char c = [c]"
  by (simp add: json_escape_char_def json_specials_def)

lemma escape_special_shape:
  "c \<in> json_specials \<Longrightarrow> \<exists>x. json_escape_char c = [CHR 0x5C, x] \<and> x \<noteq> CHR ''u''"
  unfolding json_specials_def by (auto simp: escape_specials)

lemma escape_special_inj:
  "c \<in> json_specials \<Longrightarrow> c' \<in> json_specials \<Longrightarrow>
     json_escape_char c = json_escape_char c' \<Longrightarrow> c = c'"
  unfolding json_specials_def by (auto simp: escape_specials)


lemma backslash_special: "CHR 0x5C \<in> json_specials" and quote_special: "CHR 0x22 \<in> json_specials"
  by (simp_all add: json_specials_def)

lemma escape_char_inj:
  assumes "json_escape_char c @ r = json_escape_char c' @ r'"
  shows "c = c' \<and> r = r'"
proof -
  consider (sp) "c \<in> json_specials"
    | (ct) "c \<notin> json_specials" "(of_char c :: nat) < 32"
    | (pl) "c \<notin> json_specials" "\<not> (of_char c :: nat) < 32"
    by blast
  then show ?thesis
  proof cases
    case sp
    then obtain x where x: "json_escape_char c = [CHR 0x5C, x]" "x \<noteq> CHR ''u''"
      using escape_special_shape by blast
    consider (sp') "c' \<in> json_specials"
      | (ct') "c' \<notin> json_specials" "(of_char c' :: nat) < 32"
      | (pl') "c' \<notin> json_specials" "\<not> (of_char c' :: nat) < 32"
      by blast
    then show ?thesis
    proof cases
      case sp'
      then obtain x' where x': "json_escape_char c' = [CHR 0x5C, x']"
        using escape_special_shape by blast
      from assms x x' have "json_escape_char c = json_escape_char c'" "r = r'"
        by simp_all
      with sp sp' show ?thesis
        using escape_special_inj by blast
    next
      case ct'
      with assms x show ?thesis
        by (simp add: escape_control)
    next
      case pl'
      with assms x backslash_special show ?thesis
        by (auto simp: escape_plain)
    qed
  next
    case ct
    note e = escape_control [OF ct]
    consider (sp') "c' \<in> json_specials"
      | (ct') "c' \<notin> json_specials" "(of_char c' :: nat) < 32"
      | (pl') "c' \<notin> json_specials" "\<not> (of_char c' :: nat) < 32"
      by blast
    then show ?thesis
    proof cases
      case sp'
      then obtain x' where x': "json_escape_char c' = [CHR 0x5C, x']" "x' \<noteq> CHR ''u''"
        using escape_special_shape by blast
      with assms e show ?thesis
        by simp
    next
      case ct'
      from assms e escape_control [OF ct'] have
        "digit_char (of_char c div 16) = digit_char (of_char c' div 16)"
        "digit_char (of_char c mod 16) = digit_char (of_char c' mod 16)" "r = r'"
        by simp_all
      with ct(2) ct'(2) show ?thesis
        using control_char_eq by blast
    next
      case pl'
      with assms e backslash_special show ?thesis
        by (auto simp: escape_plain)
    qed
  next
    case pl
    note e = escape_plain [OF pl]
    consider (sp') "c' \<in> json_specials"
      | (ct') "c' \<notin> json_specials" "(of_char c' :: nat) < 32"
      | (pl') "c' \<notin> json_specials" "\<not> (of_char c' :: nat) < 32"
      by blast
    then show ?thesis
    proof cases
      case sp'
      then obtain x' where x': "json_escape_char c' = [CHR 0x5C, x']"
        using escape_special_shape by blast
      with assms e pl(1) backslash_special show ?thesis
        by auto
    next
      case ct'
      with assms e pl(1) backslash_special show ?thesis
        by (auto simp: escape_control)
    next
      case pl'
      with assms e show ?thesis
        by (simp add: escape_plain)
    qed
  qed
qed

lemma escape_char_not_quote: "json_escape_char c @ r \<noteq> CHR 0x22 # r'"
proof -
  consider (sp) "c \<in> json_specials"
    | (ct) "c \<notin> json_specials" "(of_char c :: nat) < 32"
    | (pl) "c \<notin> json_specials" "\<not> (of_char c :: nat) < 32"
    by blast
  then show ?thesis
  proof cases
    case sp
    then show ?thesis using escape_special_shape [OF sp] by auto
  next
    case ct
    then show ?thesis by (simp add: escape_control)
  next
    case pl
    then show ?thesis using quote_special by (auto simp: escape_plain)
  qed
qed

lemma escape_body_inj:
  "concat (map json_escape_char s) @ CHR 0x22 # r = concat (map json_escape_char s') @ CHR 0x22 # r'
     \<Longrightarrow> s = s' \<and> r = r'"
proof (induction s arbitrary: s')
  case Nil
  show ?case
  proof (cases s')
    case Nil
    with Nil.prems show ?thesis by simp
  next
    case (Cons c' t)
    with Nil.prems have
      "json_escape_char c' @ (concat (map json_escape_char t) @ CHR 0x22 # r') = CHR 0x22 # r"
      by simp
    with escape_char_not_quote show ?thesis by blast
  qed
next
  case (Cons c s)
  show ?case
  proof (cases s')
    case Nil
    with Cons.prems have
      "json_escape_char c @ (concat (map json_escape_char s) @ CHR 0x22 # r) = CHR 0x22 # r'"
      by simp
    with escape_char_not_quote show ?thesis by blast
  next
    case (Cons c' t)
    with Cons.prems have
      "json_escape_char c @ (concat (map json_escape_char s) @ CHR 0x22 # r)
         = json_escape_char c' @ (concat (map json_escape_char t) @ CHR 0x22 # r')"
      by simp
    from escape_char_inj [OF this] Cons.IH Cons show ?thesis
      by blast
  qed
qed

lemma json_quote_inj: "json_quote s @ r = json_quote s' @ r' \<Longrightarrow> s = s' \<and> r = r'"
  using escape_body_inj [of s r s' r'] by (simp add: json_quote_def)


lemma string_of_nat_digits: "list_all is_digit (string_of_nat n)"
proof (induction n rule: string_of_nat.induct)
  case (1 n)
  show ?case
  proof (cases "n < 10")
    case True
    then show ?thesis
      by (subst string_of_nat.simps) (simp add: digit_char_is_digit)
  next
    case False
    with 1 show ?thesis
      by (subst string_of_nat.simps) (simp add: digit_char_is_digit)
  qed
qed

lemma string_of_nat_nonempty: "string_of_nat n \<noteq> []"
  by (subst string_of_nat.simps) simp

lemma string_of_nat_inj: "string_of_nat n = string_of_nat m \<Longrightarrow> n = m"
proof (induction n arbitrary: m rule: string_of_nat.induct)
  case (1 n)
  have en: "string_of_nat n =
      (if n < 10 then [digit_char n] else string_of_nat (n div 10) @ [digit_char (n mod 10)])"
    by (subst string_of_nat.simps) (rule refl)
  have em: "string_of_nat m =
      (if m < 10 then [digit_char m] else string_of_nat (m div 10) @ [digit_char (m mod 10)])"
    by (subst string_of_nat.simps) (rule refl)
  show ?case
  proof (cases "n < 10")
    case True
    show ?thesis
    proof (cases "m < 10")
      case mt: True
      with True "1.prems" en em have "digit_char n = digit_char m"
        by simp
      with True mt show ?thesis
        by (intro digit_char_inj) simp_all
    next
      case False
      with True "1.prems" en em have "string_of_nat (m div 10) = []"
        by simp
      with string_of_nat_nonempty show ?thesis
        by blast
    qed
  next
    case False
    show ?thesis
    proof (cases "m < 10")
      case True
      with False "1.prems" en em have "string_of_nat (n div 10) = []"
        by simp
      with string_of_nat_nonempty show ?thesis
        by blast
    next
      case mf: False
      with False "1.prems" en em have
        a: "string_of_nat (n div 10) = string_of_nat (m div 10)" and
        b: "digit_char (n mod 10) = digit_char (m mod 10)"
        by simp_all
      from "1.IH" [OF False a] have "n div 10 = m div 10" .
      moreover from b have "n mod 10 = m mod 10"
        by (intro digit_char_inj) simp_all
      ultimately show ?thesis
        by (metis div_mult_mod_eq)
    qed
  qed
qed

lemma not_digit_comma: "\<not> is_digit (CHR '','')"
  by (simp add: is_digit_def)

lemma string_of_nat_delim:
  assumes "string_of_nat n @ CHR '','' # r = string_of_nat m @ CHR '','' # r'"
  shows "n = m \<and> r = r'"
proof -
  have t: "takeWhile is_digit (string_of_nat k @ CHR '','' # q) = string_of_nat k" for k q
    using string_of_nat_digits [of k] not_digit_comma
    by (simp add: takeWhile_append2 list_all_iff)
  from assms have "takeWhile is_digit (string_of_nat n @ CHR '','' # r)
                 = takeWhile is_digit (string_of_nat m @ CHR '','' # r')"
    by simp
  then have e: "string_of_nat n = string_of_nat m"
    by (simp only: t)
  with assms show ?thesis
    using string_of_nat_inj by auto
qed

lemma join_comma_Cons: "join_comma (x # xs) = x @ concat (map (\<lambda>y. CHR '','' # y) xs)"
  by (induction xs arbitrary: x) auto

lemma json_quote_head: "\<exists>q. json_quote s = CHR 0x22 # q"
  by (simp add: json_quote_def)

lemma quoted_tail_inj:
  "concat (map (\<lambda>y. CHR '','' # y) (map json_quote ts)) @ CHR '']'' # r
     = concat (map (\<lambda>y. CHR '','' # y) (map json_quote ts')) @ CHR '']'' # r'
   \<Longrightarrow> ts = ts' \<and> r = r'"
proof (induction ts arbitrary: ts')
  case Nil
  then show ?case by (cases ts') auto
next
  case (Cons t ts)
  show ?case
  proof (cases ts')
    case Nil
    with Cons.prems show ?thesis by simp
  next
    case (Cons t' us)
    with Cons.prems have
      "json_quote t @ (concat (map (\<lambda>y. CHR '','' # y) (map json_quote ts)) @ CHR '']'' # r)
       = json_quote t' @ (concat (map (\<lambda>y. CHR '','' # y) (map json_quote us)) @ CHR '']'' # r')"
      by simp
    from json_quote_inj [OF this] Cons.IH Cons show ?thesis
      by blast
  qed
qed

lemma types_inj:
  assumes "join_comma (map json_quote ts) @ CHR '']'' # r
         = join_comma (map json_quote ts') @ CHR '']'' # r'"
  shows "ts = ts' \<and> r = r'"
proof (cases ts)
  case Nil
  show ?thesis
  proof (cases ts')
    case n: Nil
    with Nil assms show ?thesis by simp
  next
    case (Cons t' us)
    obtain q where "json_quote t' = CHR 0x22 # q"
      using json_quote_head by blast
    with Nil Cons assms show ?thesis
      by (simp add: join_comma_Cons)
  qed
next
  case (Cons t us)
  show ?thesis
  proof (cases ts')
    case Nil
    obtain q where "json_quote t = CHR 0x22 # q"
      using json_quote_head by blast
    with Nil Cons assms show ?thesis
      by (simp add: join_comma_Cons)
  next
    case c': (Cons t' us')
    with Cons assms have
      "json_quote t @ (concat (map (\<lambda>y. CHR '','' # y) (map json_quote us)) @ CHR '']'' # r)
       = json_quote t' @ (concat (map (\<lambda>y. CHR '','' # y) (map json_quote us')) @ CHR '']'' # r')"
      by (simp add: join_comma_Cons)
    from json_quote_inj [OF this] quoted_tail_inj Cons c' show ?thesis
      by blast
  qed
qed


lemma bool_text_inj:
  "(if b then ''true'' else ''false'') @ CHR '','' # r
     = (if b' then ''true'' else ''false'') @ CHR '','' # r' \<Longrightarrow> b = b' \<and> r = r'"
  by (cases b; cases b') simp_all

lemma JSON_stringify_field_inj:
  assumes "JSON_stringify_field f @ r = JSON_stringify_field f' @ r'"
  shows "f = f' \<and> r = r'"
proof -
  from assms have
    "string_of_nat (present f) @ CHR '','' #
       (json_quote ''optional'' @ CHR '':'' #
         ((if optional f then ''true'' else ''false'') @ CHR '','' #
           (json_quote ''types'' @ CHR '':'' # CHR ''['' #
             (join_comma (map json_quote (ftypes f)) @ CHR '']'' # CHR ''}'' # r))))
     = string_of_nat (present f') @ CHR '','' #
       (json_quote ''optional'' @ CHR '':'' #
         ((if optional f' then ''true'' else ''false'') @ CHR '','' #
           (json_quote ''types'' @ CHR '':'' # CHR ''['' #
             (join_comma (map json_quote (ftypes f')) @ CHR '']'' # CHR ''}'' # r'))))"
    unfolding JSON_stringify_field_def by simp
  from string_of_nat_delim [OF this] have p: "present f = present f'" and
    "(if optional f then ''true'' else ''false'') @ CHR '','' #
           (json_quote ''types'' @ CHR '':'' # CHR ''['' #
             (join_comma (map json_quote (ftypes f)) @ CHR '']'' # CHR ''}'' # r))
     = (if optional f' then ''true'' else ''false'') @ CHR '','' #
           (json_quote ''types'' @ CHR '':'' # CHR ''['' #
             (join_comma (map json_quote (ftypes f')) @ CHR '']'' # CHR ''}'' # r'))"
    by simp_all
  from bool_text_inj [OF this(2)] have ob: "optional f = optional f'" and
    "join_comma (map json_quote (ftypes f)) @ CHR '']'' # CHR ''}'' # r
     = join_comma (map json_quote (ftypes f')) @ CHR '']'' # CHR ''}'' # r'"
    by simp_all
  from types_inj [OF this(2)] have "ftypes f = ftypes f'" and "r = r'"
    by simp_all
  with p ob show ?thesis
    by simp
qed

lemma JSON_stringify_field_head: "\<exists>q. JSON_stringify_field f = CHR ''{'' # q"
  by (simp add: JSON_stringify_field_def)

lemma json_entry_inj:
  assumes "json_entry e @ r = json_entry e' @ r'"
  shows "e = e' \<and> r = r'"
proof -
  obtain k f k' f' where e: "e = (k, f)" "e' = (k', f')"
    by (cases e; cases e')
  with assms have
    "json_quote k @ (CHR '':'' # JSON_stringify_field f @ r)
       = json_quote k' @ (CHR '':'' # JSON_stringify_field f' @ r')"
    by (simp add: json_entry_def)
  from json_quote_inj [OF this] have "k = k'" and
    "JSON_stringify_field f @ r = JSON_stringify_field f' @ r'"
    by simp_all
  with JSON_stringify_field_inj e show ?thesis
    by blast
qed

lemma json_entry_head: "\<exists>q. json_entry e = CHR 0x22 # q"
  by (cases e) (simp add: json_entry_def json_quote_def)

lemma entry_tail_inj:
  "concat (map (\<lambda>y. CHR '','' # y) (map json_entry es)) @ CHR ''}'' # r
     = concat (map (\<lambda>y. CHR '','' # y) (map json_entry es')) @ CHR ''}'' # r'
   \<Longrightarrow> es = es' \<and> r = r'"
proof (induction es arbitrary: es')
  case Nil
  then show ?case by (cases es') auto
next
  case (Cons e es)
  show ?case
  proof (cases es')
    case Nil
    with Cons.prems show ?thesis by simp
  next
    case (Cons e' us)
    with Cons.prems have
      "json_entry e @ (concat (map (\<lambda>y. CHR '','' # y) (map json_entry es)) @ CHR ''}'' # r)
       = json_entry e' @ (concat (map (\<lambda>y. CHR '','' # y) (map json_entry us)) @ CHR ''}'' # r')"
      by simp
    from json_entry_inj [OF this] Cons.IH Cons show ?thesis
      by blast
  qed
qed

lemma JSON_stringify_inj:
  assumes "JSON_stringify a = JSON_stringify b"
  shows "a = b"
proof -
  have m: "JSON_stringify xs = ''{'' @ join_comma (map json_entry xs) @ ''}''" for xs
    by (simp only: JSON_stringify_def)
  from assms have j: "join_comma (map json_entry a) @ ''}'' = join_comma (map json_entry b) @ ''}''"
    by (simp add: m)
  show ?thesis
  proof (cases a)
    case Nil
    show ?thesis
    proof (cases b)
      case n: Nil
      with Nil show ?thesis by simp
    next
      case (Cons e' us)
      obtain q where "json_entry e' = CHR 0x22 # q"
        using json_entry_head by blast
      with Nil Cons j show ?thesis
        by (simp add: join_comma_Cons)
    qed
  next
    case (Cons e es)
    show ?thesis
    proof (cases b)
      case Nil
      obtain q where "json_entry e = CHR 0x22 # q"
        using json_entry_head by blast
      with Nil Cons j show ?thesis
        by (simp add: join_comma_Cons)
    next
      case c': (Cons e' es')
      with Cons j have
        "json_entry e @ (concat (map (\<lambda>y. CHR '','' # y) (map json_entry es)) @ CHR ''}'' # [])
         = json_entry e' @ (concat (map (\<lambda>y. CHR '','' # y) (map json_entry es')) @ CHR ''}'' # [])"
        by (simp add: join_comma_Cons)
      from json_entry_inj [OF this] entry_tail_inj Cons c' show ?thesis
        by blast
    qed
  qed
qed

section \<open>The drift comparison\<close>

text \<open>
  C2, as stated, fails: no type list is reordered before serialisation, and two field maps
  that differ only in the order of a type list are reported as different.
\<close>

theorem deepDifferent_counterexample:
  "deepDifferent
     [(''a'', \<lparr>present = 2, optional = False, ftypes = [''integer'', ''string'']\<rparr>)]
     [(''a'', \<lparr>present = 2, optional = False, ftypes = [''string'', ''integer'']\<rparr>)]"
  by code_simp

text \<open>
  C2, amended. \<open>deepDifferent\<close> compares the serialised forms as they are: two field maps
  are reported as not different exactly when they are the same sequence of entries, that
  is the same paths in the same order, each with the same present count, the same
  optional flag and the same sequence of type tags.
\<close>

theorem deepDifferent_iff: "deepDifferent a b = (a \<noteq> b)"
  using JSON_stringify_inj by (auto simp: deepDifferent_def)

section \<open>The schema diff\<close>

text \<open>
  C6. For all field maps \<open>A\<close> and \<open>B\<close>, the paths \<open>diffSchemas A B\<close> reports as added are
  those \<open>diffSchemas B A\<close> reports as removed, in the same order, and the other way round.
\<close>

theorem diffSchemas_symmetry:
  "added (diffSchemas A B) = removed (diffSchemas B A)
   \<and> removed (diffSchemas A B) = added (diffSchemas B A)"
  by (simp add: diffSchemas_def Let_def)

section \<open>inferAndMaybeCreateVersion\<close>

lemma findOne_latest_max:
  assumes "findOne_latest st = Some l"
  shows "l \<in> set (schemaVersions st) \<and> (\<forall>v \<in> set (schemaVersions st). version v \<le> version l)"
proof -
  from assms obtain rest where
    s: "sort_key (\<lambda>v. - int (version v)) (schemaVersions st) = l # rest"
    by (auto simp: findOne_latest_def split: list.splits)
  have "set (l # rest) = set (schemaVersions st)"
    unfolding s [symmetric] by simp
  moreover have "sorted (map (\<lambda>v. - int (version v)) (l # rest))"
    unfolding s [symmetric] by (rule sorted_sort_key)
  ultimately show ?thesis
    by auto
qed

lemma findOne_latest_None: "findOne_latest st = None \<longleftrightarrow> schemaVersions st = []"
proof -
  have "sort_key (\<lambda>v. - int (version v)) (schemaVersions st) = [] \<longleftrightarrow> schemaVersions st = []"
    by (metis length_sort length_0_conv)
  then show ?thesis
    by (auto simp: findOne_latest_def split: list.splits)
qed

text \<open>
  What the call does on every sample that \<open>collect\<close> can walk. When the sample is not empty
  and no sampled payload has a path named like a member of \<open>Object.prototype\<close>, the
  statistics are built, and: if no snapshot exists, or the candidate fields differ from the
  fields of the latest one, the call appends and returns one new snapshot, whose version is
  the latest version plus one (1 if there is none), whose total is the number of sampled
  records and whose fields are the candidate; otherwise it returns \<open>null\<close> and leaves the
  collections unchanged.
\<close>

lemma infer_creates_or_null:
  assumes "find_samples sampleSize st = samples" and "samples \<noteq> []"
    and "list_all (\<lambda>r. safe_paths (payload r)) samples"
  shows "\<exists>stats. collect_samples samples [] = Inr stats
       \<and> (findOne_latest st = None
          \<or> deepDifferent (vfields (the (findOne_latest st))) (buildSchema stats (length samples))
         \<longrightarrow> (\<exists>doc. inferAndMaybeCreateVersion sampleSize st
                      = (Inr (Some doc), st\<lparr>schemaVersions := schemaVersions st @ [doc]\<rparr>)
                  \<and> version doc = (case findOne_latest st of None \<Rightarrow> 1 | Some l \<Rightarrow> version l + 1)
                  \<and> totalSamples doc = length samples
                  \<and> vfields doc = buildSchema stats (length samples)))
       \<and> (\<not> (findOne_latest st = None
              \<or> deepDifferent (vfields (the (findOne_latest st)))
                   (buildSchema stats (length samples)))
         \<longrightarrow> inferAndMaybeCreateVersion sampleSize st = (Inr None, st))"
proof -
  have "wf_stats []"
    by (simp add: wf_stats_def)
  from collect_samples_succeeds [OF this assms(3)]
  obtain stats where c: "collect_samples samples [] = Inr stats"
    by blast
  with assms(1,2) show ?thesis
    by (auto simp: inferAndMaybeCreateVersion_def Let_def create_def split: option.splits)
qed

lemma infer_creates_or_null_example:
  "find_samples 30 \<lparr>rawRecords = [\<lparr>payload = JObj [(''a'', JNum 1)], ingestedAt = 7\<rparr>],
                    schemaVersions = [\<lparr>version = 4, vfields = [], totalSamples = 0,
                                        vnotes = ''auto''\<rparr>]\<rparr>
     = [\<lparr>payload = JObj [(''a'', JNum 1)], ingestedAt = 7\<rparr>]
   \<and> [\<lparr>payload = JObj [(''a'', JNum 1)], ingestedAt = 7\<rparr>] \<noteq> []
   \<and> list_all (\<lambda>r. safe_paths (payload r))
        [\<lparr>payload = JObj [(''a'', JNum 1)], ingestedAt = 7\<rparr>]
   \<and> collect_samples [\<lparr>payload = JObj [(''a'', JNum 1)], ingestedAt = 7\<rparr>] []
     = Inr [(''a'', \<lparr>count = 1, types = [''integer'']\<rparr>)]
   \<and> deepDifferent [] (buildSchema [(''a'', \<lparr>count = 1, types = [''integer'']\<rparr>)] 1)
   \<and> (\<exists>doc. inferAndMaybeCreateVersion 30
               \<lparr>rawRecords = [\<lparr>payload = JObj [(''a'', JNum 1)], ingestedAt = 7\<rparr>],
                schemaVersions = [\<lparr>version = 4, vfields = [], totalSamples = 0,
                                    vnotes = ''auto''\<rparr>]\<rparr>
             = (Inr (Some doc),
                \<lparr>rawRecords = [\<lparr>payload = JObj [(''a'', JNum 1)], ingestedAt = 7\<rparr>],
                 schemaVersions = [\<lparr>version = 4, vfields = [], totalSamples = 0,
                                     vnotes = ''auto''\<rparr>, doc]\<rparr>)
           \<and> version doc = 5 \<and> totalSamples doc = 1)"
proof -
  let ?r = "\<lparr>payload = JObj [(''a'', JNum 1)], ingestedAt = 7\<rparr>"
  let ?v = "\<lparr>version = 4, vfields = [], totalSamples = 0, vnotes = ''auto''\<rparr>"
  let ?st = "\<lparr>rawRecords = [?r], schemaVersions = [?v]\<rparr>"
  let ?S = "[(''a'', \<lparr>count = 1, types = [''integer'']\<rparr>)]"
  have f: "find_samples 30 ?st = [?r]"
    by (simp add: find_samples_def limit_def)
  have n: "[?r] \<noteq> []"
    by simp
  have p: "list_all (\<lambda>r. safe_paths (payload r)) [?r]"
    by code_simp
  have c: "collect_samples [?r] [] = Inr ?S"
    by code_simp
  have l: "findOne_latest ?st = Some ?v"
    by (simp add: findOne_latest_def)
  have d: "deepDifferent [] (buildSchema ?S 1)"
    by code_simp
  from infer_creates_or_null [OF f n p] c l d
  have "\<exists>doc. inferAndMaybeCreateVersion 30 ?st
               = (Inr (Some doc), ?st\<lparr>schemaVersions := schemaVersions ?st @ [doc]\<rparr>)
           \<and> version doc = 5 \<and> totalSamples doc = 1"
    by auto
  with f n p c d show ?thesis
    by simp
qed

text \<open>
  C4. The claim: whenever the sample is not empty and no snapshot exists (or the candidate
  differs from the latest), the call creates and returns a new snapshot with the next
  version number and the number of sampled records as its total. The code does not do so
  for every sample: with the single raw record \<open>{"constructor": 1}\<close> and no snapshot, the
  sample is not empty and there is no latest snapshot, yet \<open>collect\<close> reads the inherited
  \<open>stats["constructor"]\<close>, throws a TypeError, and the call rejects without creating
  anything.
\<close>

theorem infer_prototype_key_rejects:
  "find_samples 30 \<lparr>rawRecords = [\<lparr>payload = JObj [(''constructor'', JNum 1)],
                                      ingestedAt = 7\<rparr>],
                    schemaVersions = []\<rparr>
     = [\<lparr>payload = JObj [(''constructor'', JNum 1)], ingestedAt = 7\<rparr>]
   \<and> findOne_latest \<lparr>rawRecords = [\<lparr>payload = JObj [(''constructor'', JNum 1)],
                                        ingestedAt = 7\<rparr>],
                      schemaVersions = []\<rparr> = None
   \<and> inferAndMaybeCreateVersion 30
        \<lparr>rawRecords = [\<lparr>payload = JObj [(''constructor'', JNum 1)], ingestedAt = 7\<rparr>],
         schemaVersions = []\<rparr>
     = (Inl TypeError,
        \<lparr>rawRecords = [\<lparr>payload = JObj [(''constructor'', JNum 1)], ingestedAt = 7\<rparr>],
         schemaVersions = []\<rparr>)"
proof -
  let ?r = "\<lparr>payload = JObj [(''constructor'', JNum 1)], ingestedAt = 7\<rparr>"
  let ?st = "\<lparr>rawRecords = [?r], schemaVersions = []\<rparr>"
  have f: "find_samples 30 ?st = [?r]"
    by (simp add: find_samples_def limit_def)
  have l: "findOne_latest ?st = None"
    by (simp add: findOne_latest_def)
  have c: "collect_samples [?r] [] = Inl TypeError"
    by code_simp
  have "inferAndMaybeCreateVersion 30 ?st = (Inl TypeError, ?st)"
    using f c by (simp add: inferAndMaybeCreateVersion_def)
  with f l show ?thesis
    by simp
qed

text \<open>
  C9. When the sampling query returns no record, the call resolves to \<open>null\<close> (not a
  rejection) and leaves the collections unchanged: no snapshot is created.
\<close>

theorem infer_no_samples:
  "find_samples sampleSize st = [] \<Longrightarrow>
     inferAndMaybeCreateVersion sampleSize st = (Inr None, st)"
  by (simp add: inferAndMaybeCreateVersion_def)

theorem infer_no_samples_witness:
  "find_samples 30 \<lparr>rawRecords = [], schemaVersions = []\<rparr> = []
   \<and> inferAndMaybeCreateVersion 30 \<lparr>rawRecords = [], schemaVersions = []\<rparr>
       = (Inr None, \<lparr>rawRecords = [], schemaVersions = []\<rparr>)"
proof -
  have h: "find_samples 30 \<lparr>rawRecords = [], schemaVersions = []\<rparr> = []"
    by (simp add: find_samples_def limit_def)
  show ?thesis
    using h infer_no_samples [OF h] by simp
qed

end
